theory Spec2Isabelle
  imports Complex_Main "HOL-Library.Sublist" "HOL-Library.Multiset"
begin

section \<open>JavaScript values\<close>

text \<open>
  The dashboard is written in JavaScript, so the embedding starts with the part of the
  language the pipeline of \<open>src/App.jsx\<close> uses: numbers, the scalar values a parsed CSV
  row holds, truthiness, \<open>Number(v)\<close>, \<open>String(v)\<close>, \<open>===\<close> and \<open>||\<close>.

  A number is NaN, one of the two infinities, or finite. A finite number is given by
  the rational it denotes; the numbers of a program are the doubles among them, and
  every operation that computes a number rounds its exact result to the nearest double
  (\<open>round_double\<close> below). \<open>Fin 0\<close> stands for both zeros, which the operations used
  here do not tell apart.
\<close>

datatype jsnum = NaN | NegInf | Fin rat | PosInf

datatype jsval = JUndefined | JNull | JBool bool | JNum jsnum | JStr string

definition truthy_num :: "jsnum \<Rightarrow> bool" where
  "truthy_num n = (n \<noteq> NaN \<and> n \<noteq> Fin 0)"

fun truthy :: "jsval \<Rightarrow> bool" where
  "truthy JUndefined = False"
| "truthy JNull = False"
| "truthy (JBool b) = b"
| "truthy (JNum n) = truthy_num n"
| "truthy (JStr s) = (s \<noteq> [])"

text \<open>\<open>a || b\<close>: the left operand when it is truthy, the right one otherwise.\<close>

definition js_or :: "jsval \<Rightarrow> jsval \<Rightarrow> jsval" where
  "js_or a b = (if truthy a then a else b)"

subsection \<open>Rounding to a double\<close>

text \<open>
  IEEE 754 binary64, round to nearest, ties to even. A positive value is brought into
  the form \<open>m * 2^e\<close> with \<open>2^52 \<le> m < 2^53\<close>, or with \<open>e = -1074\<close> and
  \<open>m < 2^52\<close> for a subnormal; \<open>m\<close> is rounded to an integer. A value of
  \<open>2^1024\<close> or more after rounding is infinite, a value of \<open>2^-1075\<close> or less is
  zero. Between these bounds fewer than 2200 steps of scaling are needed.
\<close>

fun num_neg :: "jsnum \<Rightarrow> jsnum" where
  "num_neg NaN = NaN"
| "num_neg NegInf = PosInf"
| "num_neg PosInf = NegInf"
| "num_neg (Fin a) = Fin (- a)"

definition round_half_even :: "rat \<Rightarrow> int" where
  "round_half_even x =
     (let f = \<lfloor>x\<rfloor>; r = x - of_int f
      in if r < 1 / 2 then f
         else if 1 / 2 < r then f + 1
         else if even f then f else f + 1)"

fun to_mantissa :: "nat \<Rightarrow> rat \<Rightarrow> int \<Rightarrow> rat \<times> int" where
  "to_mantissa fuel q e =
     (if fuel = 0 then (q, e)
      else if q < 2 ^ 52 \<and> - 1074 < e then to_mantissa (fuel - 1) (q * 2) (e - 1)
      else if 2 ^ 53 \<le> q then to_mantissa (fuel - 1) (q / 2) (e + 1)
      else (q, e))"

declare to_mantissa.simps [simp del]

definition pow2 :: "int \<Rightarrow> rat" where
  "pow2 e = (if 0 \<le> e then 2 ^ nat e else 1 / 2 ^ nat (- e))"

definition round_positive :: "rat \<Rightarrow> jsnum" where
  "round_positive q =
     (if 2 ^ 1024 \<le> q then PosInf
      else if q * 2 ^ 1075 \<le> 1 then Fin 0
      else case to_mantissa 2200 q 0 of
             (m, e) \<Rightarrow>
               let r = of_int (round_half_even m) * pow2 e
               in if 2 ^ 1024 \<le> r then PosInf else Fin r)"

definition round_double :: "rat \<Rightarrow> jsnum" where
  "round_double q =
     (if q = 0 then Fin 0
      else if q < 0 then num_neg (round_positive (- q))
      else round_positive q)"

subsection \<open>Number(v)\<close>

text \<open>
  Strings are lists of code units below 256. \<open>StringToNumber\<close> follows the grammar of
  ECMA-262 (StringNumericLiteral): white space is trimmed, the empty string is 0, then
  either a binary, octal or hexadecimal integer without sign, or a signed decimal
  literal (\<open>Infinity\<close>, digits with an optional fraction and exponent); any other text
  is NaN. The result is the value of the literal rounded to a double.
\<close>

definition is_ws :: "char \<Rightarrow> bool" where
  "is_ws c = ((of_char c :: nat) \<in> {9, 10, 11, 12, 13, 32, 160})"

definition trim :: "string \<Rightarrow> string" where
  "trim s = rev (dropWhile is_ws (rev (dropWhile is_ws s)))"

definition digit_of :: "char \<Rightarrow> nat option" where
  "digit_of c =
     (let n = (of_char c :: nat)
      in if 48 \<le> n \<and> n \<le> 57 then Some (n - 48)
         else if 97 \<le> n \<and> n \<le> 102 then Some (n - 87)
         else if 65 \<le> n \<and> n \<le> 70 then Some (n - 55)
         else None)"

definition is_digit :: "nat \<Rightarrow> char \<Rightarrow> bool" where
  "is_digit b c = (case digit_of c of Some d \<Rightarrow> d < b | None \<Rightarrow> False)"

definition digits_val :: "nat \<Rightarrow> string \<Rightarrow> nat" where
  "digits_val b ds =
     foldl (\<lambda>a c. b * a + (case digit_of c of Some d \<Rightarrow> d | None \<Rightarrow> 0)) 0 ds"

definition parse_radix :: "nat \<Rightarrow> string \<Rightarrow> nat option" where
  "parse_radix b ds =
     (if ds \<noteq> [] \<and> list_all (is_digit b) ds then Some (digits_val b ds) else None)"

definition parse_nondecimal :: "string \<Rightarrow> nat option" where
  "parse_nondecimal s =
     (case s of
        z # x # ds \<Rightarrow>
          if z \<noteq> CHR ''0'' then None
          else if x = CHR ''x'' \<or> x = CHR ''X'' then parse_radix 16 ds
          else if x = CHR ''o'' \<or> x = CHR ''O'' then parse_radix 8 ds
          else if x = CHR ''b'' \<or> x = CHR ''B'' then parse_radix 2 ds
          else None
      | _ \<Rightarrow> None)"

definition split_sign :: "string \<Rightarrow> bool \<times> string" where
  "split_sign s =
     (case s of
        [] \<Rightarrow> (False, [])
      | c # t \<Rightarrow>
          if c = CHR ''+'' then (False, t)
          else if c = CHR ''-'' then (True, t)
          else (False, s))"

definition parse_exponent :: "string \<Rightarrow> int option" where
  "parse_exponent s =
     (case split_sign s of
        (neg, ds) \<Rightarrow>
          if ds \<noteq> [] \<and> list_all (is_digit 10) ds
          then Some (if neg then - int (digits_val 10 ds) else int (digits_val 10 ds))
          else None)"

definition pow10 :: "int \<Rightarrow> rat" where
  "pow10 e = (if 0 \<le> e then 10 ^ nat e else 1 / 10 ^ nat (- e))"

definition parse_unsigned_decimal :: "string \<Rightarrow> rat option" where
  "parse_unsigned_decimal s =
     (let ip = takeWhile (is_digit 10) s;
          r1 = dropWhile (is_digit 10) s;
          dot = (r1 \<noteq> [] \<and> hd r1 = CHR ''.'');
          r2 = (if dot then tl r1 else r1);
          fp = (if dot then takeWhile (is_digit 10) r2 else []);
          r3 = (if dot then dropWhile (is_digit 10) r2 else r2);
          ex = (case r3 of
                  [] \<Rightarrow> Some 0
                | c # t \<Rightarrow> if c = CHR ''e'' \<or> c = CHR ''E'' then parse_exponent t else None)
      in if ip = [] \<and> fp = [] then None
         else case ex of
                None \<Rightarrow> None
              | Some e \<Rightarrow> Some (of_nat (digits_val 10 (ip @ fp)) * pow10 (e - int (length fp))))"

definition StringToNumber :: "string \<Rightarrow> jsnum" where
  "StringToNumber str =
     (let s = trim str
      in if s = [] then Fin 0
         else case parse_nondecimal s of
                Some n \<Rightarrow> round_double (of_nat n)
              | None \<Rightarrow>
                  (case split_sign s of
                     (neg, u) \<Rightarrow>
                       if u = ''Infinity'' then (if neg then NegInf else PosInf)
                       else (case parse_unsigned_decimal u of
                               None \<Rightarrow> NaN
                             | Some q \<Rightarrow> round_double (if neg then - q else q))))"

fun Number :: "jsval \<Rightarrow> jsnum" where
  "Number JUndefined = NaN"
| "Number JNull = Fin 0"
| "Number (JBool b) = (if b then Fin 1 else Fin 0)"
| "Number (JNum n) = n"
| "Number (JStr s) = StringToNumber s"

subsection \<open>String(v)\<close>

text \<open>
  \<open>NumberToString\<close> follows Number::toString of ECMA-262: the decimal digits
  \<open>ds\<close> of the value and the exponent \<open>n\<close> with value \<open>= 0.ds * 10^n\<close>, laid out
  as an integer, a decimal fraction or in exponent notation. The digits are the
  shortest that read back as the same double (\<open>reads_back\<close>); of two candidates of
  that length the nearer one is taken, the even one on a tie. \<open>shortest\<close> tries 1 to
  16 digits and falls back to the value rounded to 17 digits, which every double reads
  back from. An integer below \<open>2^53\<close> prints as its digits: no shorter decimal reads
  back as it, trailing zeros apart.
\<close>

definition digit_char :: "nat \<Rightarrow> char" where
  "digit_char d = ''0123456789'' ! d"

fun digits :: "nat \<Rightarrow> string" where
  "digits n =
     (if n < 10 then [digit_char n] else digits (n div 10) @ [digit_char (n mod 10)])"

declare digits.simps [simp del]

text \<open>For \<open>0 < q < 1\<close>: the number of zeros between the point and the first digit.\<close>

fun lead_zeros :: "nat \<Rightarrow> rat \<Rightarrow> nat" where
  "lead_zeros 0 q = 0"
| "lead_zeros (Suc fuel) q = (if 1 \<le> q * 10 then 0 else Suc (lead_zeros fuel (q * 10)))"

definition dec_exponent :: "rat \<Rightarrow> int" where
  "dec_exponent q =
     (if 1 \<le> q then int (length (digits (nat \<lfloor>q\<rfloor>)))
      else - int (lead_zeros (length (digits (nat (snd (quotient_of q))))) q))"

definition strip_zeros :: "string \<Rightarrow> string" where
  "strip_zeros ds = rev (dropWhile (\<lambda>c. c = CHR ''0'') (rev ds))"

definition layout :: "string \<Rightarrow> int \<Rightarrow> string" where
  "layout ds n =
     (let k = int (length ds)
      in if k \<le> n \<and> n \<le> 21 then ds @ replicate (nat (n - k)) (CHR ''0'')
         else if 0 < n \<and> n \<le> 21 then take (nat n) ds @ ''.'' @ drop (nat n) ds
         else if - 6 < n \<and> n \<le> 0 then ''0.'' @ replicate (nat (- n)) (CHR ''0'') @ ds
         else (if k = 1 then ds else take 1 ds @ ''.'' @ drop 1 ds)
              @ ''e'' @ (if 0 \<le> n - 1 then ''+'' else ''-'') @ digits (nat \<bar>n - 1\<bar>))"

text \<open>Does the decimal \<open>s * 10^e\<close> convert to the double \<open>q\<close>?\<close>

definition reads_back :: "rat \<Rightarrow> nat \<Rightarrow> int \<Rightarrow> bool" where
  "reads_back q s e = (round_double (of_nat s * pow10 e) = Fin q)"

text \<open>
  \<open>shortest fuel k q\<close>: the digits of \<open>q\<close> as a number \<open>s\<close>, and how many were asked
  for, starting the search at \<open>k\<close> digits. The candidates of \<open>k\<close> digits are the two
  decimals next to \<open>q\<close>, one below and one above.
\<close>

fun shortest :: "nat \<Rightarrow> nat \<Rightarrow> rat \<Rightarrow> nat \<times> nat" where
  "shortest 0 k q = (nat \<lfloor>q * pow10 (int k - dec_exponent q) + 1 / 2\<rfloor>, k)"
| "shortest (Suc fuel) k q =
     (let e = dec_exponent q - int k;
          y = q * pow10 (- e);
          lo = nat \<lfloor>y\<rfloor>;
          hi = lo + 1;
          nearer = (y - of_nat lo < of_nat hi - y \<or> (y - of_nat lo = of_nat hi - y \<and> even lo))
      in if reads_back q lo e \<and> (nearer \<or> \<not> reads_back q hi e) then (lo, k)
         else if reads_back q hi e then (hi, k)
         else shortest fuel (Suc k) q)"

definition fraction_to_string :: "rat \<Rightarrow> string" where
  "fraction_to_string q =
     (case shortest 16 1 q of
        (s, k) \<Rightarrow>
          let m = digits s
          in layout (strip_zeros m) (dec_exponent q + int (length m) - int k))"

definition is_integer :: "rat \<Rightarrow> bool" where
  "is_integer q = (of_int \<lfloor>q\<rfloor> = q)"

definition positive_to_string :: "rat \<Rightarrow> string" where
  "positive_to_string q =
     (if is_integer q \<and> q < 2 ^ 53 then digits (nat \<lfloor>q\<rfloor>) else fraction_to_string q)"

fun NumberToString :: "jsnum \<Rightarrow> string" where
  "NumberToString NaN = ''NaN''"
| "NumberToString PosInf = ''Infinity''"
| "NumberToString NegInf = ''-Infinity''"
| "NumberToString (Fin q) =
     (if q = 0 then ''0''
      else if q < 0 then ''-'' @ positive_to_string (- q)
      else positive_to_string q)"

fun ToString :: "jsval \<Rightarrow> string" where
  "ToString JUndefined = ''undefined''"
| "ToString JNull = ''null''"
| "ToString (JBool b) = (if b then ''true'' else ''false'')"
| "ToString (JNum n) = NumberToString n"
| "ToString (JStr s) = s"

subsection \<open>Strict equality\<close>

text \<open>\<open>a === b\<close> on numbers: NaN equals nothing, itself included.\<close>

definition num_eq :: "jsnum \<Rightarrow> jsnum \<Rightarrow> bool" where
  "num_eq a b = (a \<noteq> NaN \<and> a = b)"

fun strict_eq :: "jsval \<Rightarrow> jsval \<Rightarrow> bool" where
  "strict_eq (JNum a) (JNum b) = num_eq a b"
| "strict_eq a b = (a = b)"

subsection \<open>Arithmetic\<close>

fun num_lt :: "jsnum \<Rightarrow> jsnum \<Rightarrow> bool" where
  "num_lt NaN _ = False"
| "num_lt _ NaN = False"
| "num_lt _ NegInf = False"
| "num_lt NegInf _ = True"
| "num_lt PosInf _ = False"
| "num_lt _ PosInf = True"
| "num_lt (Fin a) (Fin b) = (a < b)"

text \<open>\<open>a + b\<close>: the exact sum, rounded.\<close>

fun num_add :: "jsnum \<Rightarrow> jsnum \<Rightarrow> jsnum" where
  "num_add NaN _ = NaN"
| "num_add _ NaN = NaN"
| "num_add PosInf NegInf = NaN"
| "num_add NegInf PosInf = NaN"
| "num_add PosInf _ = PosInf"
| "num_add NegInf _ = NegInf"
| "num_add _ PosInf = PosInf"
| "num_add _ NegInf = NegInf"
| "num_add (Fin a) (Fin b) = round_double (a + b)"

text \<open>
  \<open>a - b\<close> occurs in the comparators of \<open>sort\<close> only, which look at its sign. The
  rounded difference of two doubles has the sign of the exact difference, and the exact
  difference is what \<open>num_sub\<close> gives.
\<close>

fun num_sub :: "jsnum \<Rightarrow> jsnum \<Rightarrow> jsnum" where
  "num_sub NaN _ = NaN"
| "num_sub _ NaN = NaN"
| "num_sub PosInf PosInf = NaN"
| "num_sub NegInf NegInf = NaN"
| "num_sub PosInf _ = PosInf"
| "num_sub NegInf _ = NegInf"
| "num_sub _ PosInf = NegInf"
| "num_sub _ NegInf = PosInf"
| "num_sub (Fin a) (Fin b) = Fin (a - b)"

text \<open>The sign of a number that is not NaN: \<open>-1\<close>, \<open>0\<close> or \<open>1\<close>.\<close>

fun num_sgn :: "jsnum \<Rightarrow> int" where
  "num_sgn NaN = 0"
| "num_sgn NegInf = - 1"
| "num_sgn PosInf = 1"
| "num_sgn (Fin a) = (if a < 0 then - 1 else if a = 0 then 0 else 1)"

definition signed_inf :: "int \<Rightarrow> jsnum" where
  "signed_inf s = (if s < 0 then NegInf else PosInf)"

fun num_mul :: "jsnum \<Rightarrow> jsnum \<Rightarrow> jsnum" where
  "num_mul NaN _ = NaN"
| "num_mul _ NaN = NaN"
| "num_mul (Fin a) (Fin b) = round_double (a * b)"
| "num_mul a b =
     (if num_sgn a = 0 \<or> num_sgn b = 0 then NaN else signed_inf (num_sgn a * num_sgn b))"

text \<open>
  \<open>a / b\<close>. A zero divisor is taken as \<open>+0\<close>; the pipeline divides by
  \<open>Math.max(1, length)\<close> and by \<open>100\<close> only.
\<close>

fun num_div :: "jsnum \<Rightarrow> jsnum \<Rightarrow> jsnum" where
  "num_div NaN _ = NaN"
| "num_div _ NaN = NaN"
| "num_div (Fin a) (Fin b) =
     (if b = 0 then (if a = 0 then NaN else signed_inf (num_sgn (Fin a)))
      else round_double (a / b))"
| "num_div (Fin a) b = Fin 0"
| "num_div a (Fin b) = signed_inf (num_sgn a * (if b < 0 then - 1 else 1))"
| "num_div a b = NaN"

text \<open>
  \<open>Math.max(a, b)\<close> and \<open>Math.round(x)\<close>, the integer nearest to \<open>x\<close> with halves
  going up; for a double \<open>x\<close> that integer is a double, so nothing is rounded twice.
\<close>

definition Math_max :: "jsnum \<Rightarrow> jsnum \<Rightarrow> jsnum" where
  "Math_max a b = (if a = NaN \<or> b = NaN then NaN else if num_lt a b then b else a)"

fun Math_round :: "jsnum \<Rightarrow> jsnum" where
  "Math_round (Fin a) = Fin (of_int \<lfloor>a + 1 / 2\<rfloor>)"
| "Math_round x = x"

section \<open>The transform pipeline of App.jsx\<close>

subsection \<open>Raw rows and cleaned records\<close>

text \<open>
  A raw row is the object the CSV parser builds for a line: column name to scalar.
  Reading a column the row does not have gives \<open>undefined\<close>.
\<close>

type_synonym rawrow = "string \<rightharpoonup> jsval"

definition field :: "rawrow \<Rightarrow> string \<Rightarrow> jsval" where
  "field r k = (case r k of None \<Rightarrow> JUndefined | Some v \<Rightarrow> v)"

text \<open>
  The cleaned record. \<open>year\<close> is \<open>Number(..) || null\<close>, a number or null
  (\<open>None\<close>); \<open>battery_capacity_kwh\<close> is \<open>Number(..) || 0\<close>, always a number; the
  four text fields are \<open>r.X || "default"\<close>, whatever truthy scalar the row holds or
  the default string. The field \<open>make\<close> is named \<open>make_f\<close> here.
\<close>

record ev_record =
  year :: "jsnum option"
  state :: jsval
  make_f :: jsval
  model :: jsval
  vehicle_type :: jsval
  battery_capacity_kwh :: jsnum

definition or_null :: "jsnum \<Rightarrow> jsnum option" where
  "or_null n = (if truthy_num n then Some n else None)"

definition or_zero :: "jsnum \<Rightarrow> jsnum" where
  "or_zero n = (if truthy_num n then n else Fin 0)"

definition clean_row :: "rawrow \<Rightarrow> ev_record" where
  "clean_row r =
     \<lparr> year = or_null (Number (field r ''Model Year'')),
       state = js_or (field r ''State'') (JStr ''Unknown''),
       make_f = js_or (field r ''Make'') (JStr ''Unknown''),
       model = js_or (field r ''Model'') (JStr ''Unknown''),
       vehicle_type = js_or (field r ''Electric Vehicle Type'') (JStr ''Other''),
       battery_capacity_kwh = or_zero (Number (field r ''Electric Range'')) \<rparr>"

text \<open>\<open>r.year\<close> as a condition: null is falsy, a number is truthy unless NaN or 0.\<close>

fun truthy_year :: "jsnum option \<Rightarrow> bool" where
  "truthy_year None = False"
| "truthy_year (Some n) = truthy_num n"

text \<open>
  \<open>data\<close>: \<open>raw\<close> is null until the loader has finished (\<open>None\<close>), then the array
  of rows.
\<close>

definition data :: "rawrow list option \<Rightarrow> ev_record list" where
  "data raw =
     (case raw of
        None \<Rightarrow> []
      | Some rows \<Rightarrow> filter (\<lambda>r. truthy_year (year r)) (map clean_row rows))"

subsection \<open>Filtering\<close>

text \<open>
  The selection state: both fields are strings, \<open>"All"\<close> at first and then the value
  of the chosen option.
\<close>

record filters =
  sel_year :: string
  sel_state :: string

fun year_eq :: "jsnum option \<Rightarrow> jsnum \<Rightarrow> bool" where
  "year_eq None _ = False"
| "year_eq (Some a) b = num_eq a b"

definition keep :: "filters \<Rightarrow> ev_record \<Rightarrow> bool" where
  "keep f d =
     ((sel_year f = ''All'' \<or> year_eq (year d) (Number (JStr (sel_year f)))) \<and>
      (sel_state f = ''All'' \<or> strict_eq (state d) (JStr (sel_state f))))"

definition filteredData :: "ev_record list \<Rightarrow> filters \<Rightarrow> ev_record list" where
  "filteredData ds f = filter (keep f) ds"

subsection \<open>KPIs\<close>

definition total :: "ev_record list \<Rightarrow> nat" where
  "total fd = length fd"

text \<open>\<open>thisYear\<close> reads the clock; the current year is a parameter here.\<close>

definition thisYear :: "int \<Rightarrow> ev_record list \<Rightarrow> nat" where
  "thisYear now fd = length (filter (\<lambda>d. year_eq (year d) (Fin (of_int now))) fd)"

definition avgBattery :: "ev_record list \<Rightarrow> jsnum" where
  "avgBattery fd =
     num_div
       (Math_round
          (num_mul
             (num_div (foldl (\<lambda>s d. num_add s (battery_capacity_kwh d)) (Fin 0) fd)
                      (Math_max (Fin 1) (Fin (of_nat (length fd)))))
             (Fin 100)))
       (Fin 100)"


subsection \<open>Objects as counters, sorting\<close>

text \<open>
  The aggregates count in a plain object, \<open>map[k] = (map[k] || 0) + 1\<close>, and read it
  back with \<open>Object.entries\<close>. An object is modelled by its own properties in creation
  order. \<open>Object.entries\<close> does not return them in that order: the keys that are array
  indices (the canonical decimal strings of the integers \<open>0 .. 2^32 - 2\<close>) come first,
  in ascending numeric order, and the other keys follow in creation order.
\<close>

definition Object_entries :: "('k \<Rightarrow> nat option) \<Rightarrow> ('k \<times> 'v) list \<Rightarrow> ('k \<times> 'v) list" where
  "Object_entries idx m =
     map snd (sort_key fst (List.map_filter (\<lambda>e. map_option (\<lambda>i. (i, e)) (idx (fst e))) m))
     @ filter (\<lambda>e. idx (fst e) = None) m"

text \<open>
  The year table is indexed by \<open>d.year\<close>, a number or null, whose property key is its
  string. Number::toString is injective and \<open>Number\<close> reads the string back as the same
  number, so the table is modelled with the value itself as the key; \<open>key_number\<close> is
  \<open>Number(key)\<close> (\<open>"null"\<close> reads as NaN). None of these strings names a property of
  \<open>Object.prototype\<close>, so \<open>map[k]\<close> is undefined until \<open>k\<close> has been written.
\<close>

fun bump :: "'k \<Rightarrow> ('k \<times> nat) list \<Rightarrow> ('k \<times> nat) list" where
  "bump k [] = [(k, 1)]"
| "bump k ((k', c) # m) = (if k = k' then (k', c + 1) # m else (k', c) # bump k m)"

fun year_index :: "jsnum option \<Rightarrow> nat option" where
  "year_index (Some (Fin q)) =
     (if is_integer q \<and> 0 \<le> q \<and> q \<le> 4294967294 then Some (nat \<lfloor>q\<rfloor>) else None)"
| "year_index _ = None"

fun key_number :: "jsnum option \<Rightarrow> jsnum" where
  "key_number None = NaN"
| "key_number (Some n) = n"

text \<open>
  The state and vehicle-type tables are indexed by \<open>String(d.state)\<close>, any string. For
  a name that \<open>Object.prototype\<close> defines, the first read \<open>map[k]\<close> finds the inherited
  function, which is truthy, so \<open>(map[k] || 0) + 1\<close> is a string (the function's text
  followed by \<open>1\<close>) and stays one: \<open>NotCount\<close>. Writing \<open>__proto__\<close> calls the
  inherited setter, which ignores a string, so no property is created.
\<close>

datatype count = Count nat | NotCount

definition prototype_names :: "string list" where
  "prototype_names =
     [''constructor'', ''hasOwnProperty'', ''isPrototypeOf'', ''propertyIsEnumerable'',
      ''toLocaleString'', ''toString'', ''valueOf'', ''__proto__'', ''__defineGetter__'',
      ''__defineSetter__'', ''__lookupGetter__'', ''__lookupSetter__'']"

fun plus_one :: "count \<Rightarrow> count" where
  "plus_one (Count n) = Count (n + 1)"
| "plus_one NotCount = NotCount"

fun bump_name :: "string \<Rightarrow> (string \<times> count) list \<Rightarrow> (string \<times> count) list" where
  "bump_name k [] =
     (if k = ''__proto__'' then []
      else if k \<in> set prototype_names then [(k, NotCount)]
      else [(k, Count 1)])"
| "bump_name k ((k', c) # m) =
     (if k = k' then (k', plus_one c) # m else (k', c) # bump_name k m)"

definition index_of :: "string \<Rightarrow> nat option" where
  "index_of s =
     (if s \<noteq> [] \<and> list_all (is_digit 10) s \<and> (s = ''0'' \<or> hd s \<noteq> CHR ''0'')
         \<and> digits_val 10 s \<le> 4294967294
      then Some (digits_val 10 s) else None)"

text \<open>\<open>count_num\<close> is the count as the operand of a subtraction.\<close>

fun count_num :: "count \<Rightarrow> jsnum" where
  "count_num (Count n) = Fin (of_nat n)"
| "count_num NotCount = NaN"

text \<open>
  \<open>xs.sort(cmp)\<close> is a stable sort: \<open>x\<close> ends after \<open>y\<close> when \<open>cmp(x, y) > 0\<close>, and
  elements that compare as equal (a result of 0 or NaN) keep their order. With a
  consistent comparator this fixes the result, which the insertion sort below computes.
  (With an inconsistent comparator, as a \<open>NotCount\<close> entry makes the one of
  \<open>topStates\<close>, the order is the engine's choice.)
\<close>

fun insert_by :: "('a \<Rightarrow> 'a \<Rightarrow> jsnum) \<Rightarrow> 'a \<Rightarrow> 'a list \<Rightarrow> 'a list" where
  "insert_by cmp x [] = [x]"
| "insert_by cmp x (y # ys) =
     (if num_lt (Fin 0) (cmp x y) then y # insert_by cmp x ys else x # y # ys)"

definition sort_by :: "('a \<Rightarrow> 'a \<Rightarrow> jsnum) \<Rightarrow> 'a list \<Rightarrow> 'a list" where
  "sort_by cmp xs = foldr (insert_by cmp) xs []"

subsection \<open>Aggregates\<close>

definition yearly :: "ev_record list \<Rightarrow> (jsnum \<times> nat) list" where
  "yearly fd =
     sort_by (\<lambda>a b. num_sub (fst a) (fst b))
       (map (\<lambda>(k, c). (key_number k, c))
          (Object_entries year_index (foldl (\<lambda>m d. bump (year d) m) [] fd)))"

definition topStates :: "ev_record list \<Rightarrow> (string \<times> count) list" where
  "topStates fd =
     take 10
       (sort_by (\<lambda>a b. num_sub (count_num (snd b)) (count_num (snd a)))
          (Object_entries index_of (foldl (\<lambda>m d. bump_name (ToString (state d)) m) [] fd)))"

definition vehicleTypes :: "ev_record list \<Rightarrow> (string \<times> count) list" where
  "vehicleTypes fd =
     Object_entries index_of (foldl (\<lambda>m d. bump_name (ToString (vehicle_type d)) m) [] fd)"

subsection \<open>Dropdown options\<close>

text \<open>
  \<open>Array.from(new Set(xs))\<close>: the distinct elements in order of first occurrence. The
  set compares with SameValueZero, which on these values is equality.
\<close>

definition Set_from :: "'a list \<Rightarrow> 'a list" where
  "Set_from xs = foldl (\<lambda>s x. if x \<in> set s then s else s @ [x]) [] xs"

fun year_val :: "jsnum option \<Rightarrow> jsval" where
  "year_val None = JNull"
| "year_val (Some n) = JNum n"

text \<open>The default comparator of \<open>sort()\<close>: undefined last, else the strings by code unit.\<close>

fun code_units_lt :: "string \<Rightarrow> string \<Rightarrow> bool" where
  "code_units_lt _ [] = False"
| "code_units_lt [] (y # ys) = True"
| "code_units_lt (x # xs) (y # ys) =
     ((of_char x :: nat) < of_char y \<or> (x = y \<and> code_units_lt xs ys))"

definition SortCompare :: "jsval \<Rightarrow> jsval \<Rightarrow> jsnum" where
  "SortCompare x y =
     (if x = JUndefined \<and> y = JUndefined then Fin 0
      else if x = JUndefined then Fin 1
      else if y = JUndefined then Fin (- 1)
      else if code_units_lt (ToString x) (ToString y) then Fin (- 1)
      else if code_units_lt (ToString y) (ToString x) then Fin 1
      else Fin 0)"

definition years :: "ev_record list \<Rightarrow> jsval list" where
  "years ds =
     JStr ''All'' #
     map year_val
       (sort_by (\<lambda>a b. num_sub (Number (year_val a)) (Number (year_val b)))
          (Set_from (map year ds)))"

definition states :: "ev_record list \<Rightarrow> jsval list" where
  "states ds = JStr ''All'' # sort_by SortCompare (Set_from (map state ds))"

subsection \<open>The component\<close>

text \<open>
  \<open>App\<close> reads the loader's state and its own selection state and renders one of three
  screens. The dashboard is given by the values it displays.
\<close>

record loader_state =
  raw :: "rawrow list option"
  loading :: bool
  error :: "string option"

record dashboard =
  year_options :: "jsval list"
  state_options :: "jsval list"
  kpi_total :: nat
  kpi_thisYear :: nat
  kpi_avgBattery :: jsnum
  chart_yearly :: "(jsnum \<times> nat) list"
  chart_topStates :: "(string \<times> count) list"
  chart_vehicleTypes :: "(string \<times> count) list"
  table_rows :: "ev_record list"

datatype screen = LoadingScreen | ErrorScreen string | DashboardScreen dashboard

definition App :: "loader_state \<Rightarrow> filters \<Rightarrow> int \<Rightarrow> screen" where
  "App ld f now =
     (let ds = data (raw ld);
          fd = filteredData ds f
      in if loading ld then LoadingScreen
         else case error ld of
                Some msg \<Rightarrow>
                  if msg \<noteq> [] then ErrorScreen msg
                  else DashboardScreen
                         \<lparr> year_options = years ds, state_options = states ds,
                           kpi_total = total fd, kpi_thisYear = thisYear now fd,
                           kpi_avgBattery = avgBattery fd, chart_yearly = yearly fd,
                           chart_topStates = topStates fd,
                           chart_vehicleTypes = vehicleTypes fd, table_rows = take 20 fd \<rparr>
              | None \<Rightarrow>
                  DashboardScreen
                    \<lparr> year_options = years ds, state_options = states ds,
                      kpi_total = total fd, kpi_thisYear = thisYear now fd,
                      kpi_avgBattery = avgBattery fd, chart_yearly = yearly fd,
                      chart_topStates = topStates fd,
                      chart_vehicleTypes = vehicleTypes fd, table_rows = take 20 fd \<rparr>)"

text \<open>The two option lists a screen offers; only the dashboard has them.\<close>

fun options_of :: "screen \<Rightarrow> (jsval list \<times> jsval list) option" where
  "options_of (DashboardScreen v) = Some (year_options v, state_options v)"
| "options_of _ = None"

subsection \<open>The specification's wording\<close>

text \<open>
  The specification states the filter with \<open>numeric(selection.year)\<close> and plain
  equality, and the average as a mean rounded to two decimal places. The first four
  definitions follow its words; the theorems below compare them with the definitions
  taken from the code. The remaining ones name what the statements about \<open>topStates\<close>
  speak of.
\<close>

definition numeric :: "string \<Rightarrow> jsnum" where
  "numeric s = Number (JStr s)"

definition keep_spec :: "filters \<Rightarrow> ev_record \<Rightarrow> bool" where
  "keep_spec f d =
     ((sel_year f = ''All'' \<or> year d = Some (numeric (sel_year f))) \<and>
      (sel_state f = ''All'' \<or> state d = JStr (sel_state f)))"

definition round2 :: "rat \<Rightarrow> rat" where
  "round2 x = of_int \<lfloor>x * 100 + 1 / 2\<rfloor> / 100"

definition avgRange_spec :: "rat list \<Rightarrow> rat" where
  "avgRange_spec rs = round2 (sum_list rs / of_nat (max 1 (length rs)))"

text \<open>
  The order in which \<open>Object.entries\<close> lists keys that were created in the order
  \<open>ks\<close>: the array indices in ascending order, then the other keys as created.
\<close>

definition entries_order :: "('k \<Rightarrow> nat option) \<Rightarrow> 'k list \<Rightarrow> 'k list" where
  "entries_order idx ks =
     sort_key (\<lambda>k. case idx k of Some i \<Rightarrow> i | None \<Rightarrow> 0) (filter (\<lambda>k. idx k \<noteq> None) ks)
     @ filter (\<lambda>k. idx k = None) ks"

text \<open>
  The state strings of a record list in order of first encounter, and the number of
  records with a given state string.
\<close>

definition first_seen :: "ev_record list \<Rightarrow> string list" where
  "first_seen fd = Set_from (map (\<lambda>d. ToString (state d)) fd)"

definition state_count :: "ev_record list \<Rightarrow> string \<Rightarrow> nat" where
  "state_count fd k = length (filter (\<lambda>d. ToString (state d) = k) fd)"

subsection \<open>Sample rows\<close>

definition row_wa :: rawrow where
  "row_wa = [''Model Year'' \<mapsto> JNum (Fin 2020), ''State'' \<mapsto> JStr ''WA'',
             ''Electric Range'' \<mapsto> JStr ''150'']"

definition row_ca :: rawrow where
  "row_ca = [''Model Year'' \<mapsto> JNum (Fin 2020), ''State'' \<mapsto> JStr ''CA'']"

definition row_bad :: rawrow where
  "row_bad = [''Model Year'' \<mapsto> JStr ''bad'', ''State'' \<mapsto> JStr ''OR'']"

definition row_empty :: rawrow where
  "row_empty = [''Model Year'' \<mapsto> JNull, ''State'' \<mapsto> JStr ''OR'']"

definition row_zero :: rawrow where
  "row_zero = [''Model Year'' \<mapsto> JNum (Fin 0), ''State'' \<mapsto> JStr ''OR'']"

definition row_negative :: rawrow where
  "row_negative = [''Model Year'' \<mapsto> JNum (Fin 2021), ''State'' \<mapsto> JStr ''WA'',
                   ''Electric Range'' \<mapsto> JNum (Fin (- 5))]"

definition row_bad_range :: rawrow where
  "row_bad_range = [''Model Year'' \<mapsto> JStr ''2022'', ''State'' \<mapsto> JStr [],
                    ''Make'' \<mapsto> JStr ''TESLA'', ''Model'' \<mapsto> JNum (Fin 3),
                    ''Electric Range'' \<mapsto> JStr ''n/a'']"

definition row_blank :: rawrow where
  "row_blank = [''Model Year'' \<mapsto> JNum (Fin 2022), ''State'' \<mapsto> JNull,
                ''Model'' \<mapsto> JStr [], ''Electric Vehicle Type'' \<mapsto> JBool False,
                ''Electric Range'' \<mapsto> JNum (Fin 0)]"

definition row_23 :: rawrow where
  "row_23 = [''Model Year'' \<mapsto> JNum (Fin 2020), ''State'' \<mapsto> JStr ''WA'',
             ''Electric Range'' \<mapsto> JNum (Fin 23)]"

definition row_2675 :: rawrow where
  "row_2675 = [''Model Year'' \<mapsto> JNum (Fin 2020), ''State'' \<mapsto> JStr ''WA'',
               ''Electric Range'' \<mapsto> JStr ''2.675'']"

definition row_2019 :: rawrow where
  "row_2019 = [''Model Year'' \<mapsto> JNum (Fin 2019), ''State'' \<mapsto> JStr ''WA'']"

definition row_zip :: rawrow where
  "row_zip = [''Model Year'' \<mapsto> JNum (Fin 2020), ''State'' \<mapsto> JNum (Fin 98101)]"

definition row_half :: rawrow where
  "row_half = [''Model Year'' \<mapsto> JNum (Fin (4041 / 2)), ''State'' \<mapsto> JStr ''WA'']"

definition loaded_sample :: loader_state where
  "loaded_sample = \<lparr> raw = Some [row_wa, row_2019, row_bad, row_ca], loading = False, error = None \<rparr>"

section \<open>Properties\<close>

subsection \<open>Rounding to a double\<close>

lemma round_half_even_close: "\<bar>of_int (round_half_even x) - x\<bar> \<le> 1 / 2"
proof -
  have "of_int \<lfloor>x\<rfloor> \<le> x" "x < of_int \<lfloor>x\<rfloor> + 1" by linarith+
  then show ?thesis
    by (auto simp: round_half_even_def Let_def)
qed

lemma round_half_even_int: "round_half_even (of_int z) = z"
  by (simp add: round_half_even_def)

lemma pow2_powi: "pow2 e = 2 powi e"
  by (simp add: pow2_def power_int_def inverse_eq_divide power_one_over)

lemma pow2_pos: "0 < pow2 e"
  by (simp add: pow2_powi)

lemma pow2_nat: "pow2 (int k) = 2 ^ k" "pow2 (- int k) = 1 / 2 ^ k"
  by (simp_all add: pow2_def)

lemma mantissa_up:
  "2 ^ 52 \<le> q * 2 ^ k \<Longrightarrow> q * 2 ^ k < 2 ^ 53 \<Longrightarrow> k \<le> fuel \<Longrightarrow> - 1074 \<le> e - int k \<Longrightarrow>
   to_mantissa fuel q e = (q * 2 ^ k, e - int k)"
proof (induction k arbitrary: fuel q e)
  case 0
  then show ?case by (subst to_mantissa.simps) simp
next
  case (Suc k)
  have qpos: "0 < q"
  proof (rule ccontr)
    assume "\<not> 0 < q"
    then have "q * 2 ^ Suc k \<le> 0" by (simp add: mult_le_0_iff)
    with Suc.prems(1) show False by simp
  qed
  have "q * 2 < 2 ^ 53"
  proof -
    have "q * 2 * 1 \<le> q * 2 * 2 ^ k"
      using qpos by (intro mult_left_mono) simp_all
    then show ?thesis using Suc.prems(2) by simp
  qed
  then have small: "q < 2 ^ 52" by simp
  have "to_mantissa fuel q e = to_mantissa (fuel - 1) (q * 2) (e - 1)"
    using small Suc.prems(3,4) by (subst to_mantissa.simps) simp
  also have "\<dots> = (q * 2 * 2 ^ k, e - 1 - int k)"
    using Suc.prems by (intro Suc.IH) (simp_all add: mult.assoc)
  finally show ?case by (simp add: mult.assoc)
qed

lemma mantissa_down:
  "2 ^ 52 \<le> q / 2 ^ k \<Longrightarrow> q / 2 ^ k < 2 ^ 53 \<Longrightarrow> k \<le> fuel \<Longrightarrow>
   to_mantissa fuel q e = (q / 2 ^ k, e + int k)"
proof (induction k arbitrary: fuel q e)
  case 0
  then show ?case by (subst to_mantissa.simps) simp
next
  case (Suc k)
  have a: "2 ^ 52 * 2 ^ Suc k \<le> q"
    using Suc.prems(1) by (simp add: pos_le_divide_eq)
  have b: "(2 :: rat) ^ 52 * 2 \<le> 2 ^ 52 * 2 ^ Suc k"
    by (intro mult_left_mono) simp_all
  from order_trans [OF b a] have big: "2 ^ 53 \<le> q" by simp
  have "to_mantissa fuel q e = to_mantissa (fuel - 1) (q / 2) (e + 1)"
    using big Suc.prems(3) by (subst to_mantissa.simps) simp
  also have "\<dots> = (q / 2 / 2 ^ k, e + 1 + int k)"
    using Suc.prems by (intro Suc.IH) simp_all
  finally show ?case by simp
qed

lemma scale_up_exists:
  "0 < q \<Longrightarrow> q < 2 ^ 53 \<Longrightarrow> 2 ^ 52 \<le> q * 2 ^ j \<Longrightarrow>
   \<exists>k \<le> j. 2 ^ 52 \<le> q * 2 ^ k \<and> q * 2 ^ k < (2 :: rat) ^ 53"
proof (induction j)
  case 0
  then show ?case by simp
next
  case (Suc j)
  show ?case
  proof (cases "2 ^ 52 \<le> q * 2 ^ j")
    case True
    with Suc obtain k where "k \<le> j" "2 ^ 52 \<le> q * 2 ^ k" "q * 2 ^ k < 2 ^ 53" by blast
    then show ?thesis using le_Suc_eq by blast
  next
    case False
    then have "q * 2 ^ Suc j < 2 ^ 53" by simp
    with Suc.prems(3) show ?thesis by blast
  qed
qed

lemma scale_down_exists:
  "2 ^ 52 \<le> q \<Longrightarrow> q / 2 ^ j < 2 ^ 53 \<Longrightarrow>
   \<exists>k \<le> j. 2 ^ 52 \<le> q / 2 ^ k \<and> q / 2 ^ k < (2 :: rat) ^ 53"
proof (induction j)
  case 0
  then show ?case by simp
next
  case (Suc j)
  show ?case
  proof (cases "q / 2 ^ j < 2 ^ 53")
    case True
    with Suc obtain k where "k \<le> j" "2 ^ 52 \<le> q / 2 ^ k" "q / 2 ^ k < 2 ^ 53" by blast
    then show ?thesis using le_Suc_eq by blast
  next
    case False
    then have "2 ^ 52 \<le> q / 2 ^ Suc j" by simp
    with Suc.prems(2) show ?thesis by blast
  qed
qed

lemma round_positive_cases:
  "round_positive q = PosInf \<or> (\<exists>r. round_positive q = Fin r)"
  by (auto simp: round_positive_def Let_def split: prod.splits)

lemma round_double_not_NaN: "round_double q \<noteq> NaN"
  using round_positive_cases [of q] round_positive_cases [of "- q"]
  by (auto simp: round_double_def)

lemma round_double_cases:
  "round_double q = PosInf \<or> round_double q = NegInf \<or> (\<exists>r. round_double q = Fin r)"
  using round_positive_cases [of q] round_positive_cases [of "- q"]
  by (auto simp: round_double_def)

lemma round_positive_up:
  assumes k: "2 ^ 52 \<le> q * 2 ^ k" "q * 2 ^ k < 2 ^ 53" "k \<le> 1074"
  shows "round_positive q = Fin (of_int (round_half_even (q * 2 ^ k)) / 2 ^ k)"
    and "\<bar>of_int (round_half_even (q * 2 ^ k)) / 2 ^ k - q\<bar> \<le> q / 2 ^ 53"
proof -
  define P :: rat where "P = 2 ^ k"
  define M where "M = round_half_even (q * P)"
  have P: "1 \<le> P" "0 < P" by (simp_all add: P_def)
  have qP: "2 ^ 52 \<le> q * P" "q * P < 2 ^ 53" using k by (simp_all add: P_def)
  have q0: "0 < q"
  proof (rule ccontr)
    assume "\<not> 0 < q"
    then have "q * P \<le> 0" using P(2) by (simp add: mult_le_0_iff)
    with qP(1) show False by simp
  qed
  have "q * 1 \<le> q * P" using P(1) q0 by (intro mult_left_mono) simp_all
  then have q1: "q < 2 ^ 53" using qP(2) by simp
  have q2: "2 ^ 52 / P \<le> q" using qP(1) P(2) by (simp add: pos_divide_le_eq)
  have M: "\<bar>of_int M - q * P\<bar> \<le> 1 / 2"
    unfolding M_def by (rule round_half_even_close)
  have m: "to_mantissa 2200 q 0 = (q * P, - int k)"
    unfolding P_def using mantissa_up [of q k 2200 0] k by simp
  have r_le: "of_int M / P < 2 ^ 1024"
  proof (cases "(0 :: rat) \<le> of_int M")
    case True
    have "of_int M \<le> q * P + 1 / 2" using M by linarith
    then have "of_int M < (2 :: rat) ^ 1024" using qP(2) by simp
    moreover have "rat_of_int M * 1 \<le> of_int M * P"
      using True P(1) by (intro mult_left_mono) simp_all
    then have "of_int M / P \<le> of_int M"
      using P(2) by (simp add: pos_divide_le_eq)
    ultimately show ?thesis by linarith
  next
    case False
    then have "of_int M / P \<le> 0"
      using P(2) by (simp add: divide_le_0_iff)
    then show ?thesis by (rule le_less_trans) simp
  qed
  have g1: "\<not> 2 ^ 1024 \<le> q" using q1 by simp
  have g2: "\<not> q * 2 ^ 1075 \<le> 1"
  proof -
    have "q * P \<le> q * 2 ^ 1075"
      unfolding P_def using q0 k(3) by (intro mult_left_mono power_increasing) simp_all
    then show ?thesis using qP(1) by simp
  qed
  show "round_positive q = Fin (of_int (round_half_even (q * 2 ^ k)) / 2 ^ k)"
    using g1 g2 m r_le
    by (simp add: round_positive_def Let_def pow2_nat M_def [symmetric] P_def [symmetric])
  have "of_int M / P - q = (of_int M - q * P) / P"
    using P(2) by (simp add: field_simps)
  then have "\<bar>of_int M / P - q\<bar> = \<bar>of_int M - q * P\<bar> / P"
    using P(2) by (simp add: abs_divide)
  also have "\<dots> \<le> (1 / 2) / P"
    using M P(2) by (intro divide_right_mono) simp_all
  also have "\<dots> \<le> q / 2 ^ 53"
    using q2 by simp
  finally show "\<bar>of_int (round_half_even (q * 2 ^ k)) / 2 ^ k - q\<bar> \<le> q / 2 ^ 53"
    by (simp add: M_def P_def)
qed

lemma round_positive_down:
  assumes k: "2 ^ 52 \<le> q / 2 ^ k" "q / 2 ^ k < 2 ^ 53" "k \<le> 970"
  shows "round_positive q = Fin (of_int (round_half_even (q / 2 ^ k)) * 2 ^ k)"
    and "\<bar>of_int (round_half_even (q / 2 ^ k)) * 2 ^ k - q\<bar> \<le> q / 2 ^ 53"
proof -
  define P :: rat where "P = 2 ^ k"
  define M where "M = round_half_even (q / P)"
  have P12: "1 \<le> P" "0 < P" by (simp_all add: P_def)
  have "(2 :: rat) ^ k \<le> 2 ^ 970" using k(3) by (intro power_increasing) simp_all
  then have P3: "P \<le> 2 ^ 970" by (simp only: P_def)
  note P = P12 P3
  have qP: "2 ^ 52 \<le> q / P" "q / P < 2 ^ 53" using k by (simp_all add: P_def)
  have q2: "2 ^ 52 * P \<le> q" and q3: "q < 2 ^ 53 * P"
    using qP P(2) by (simp_all add: pos_le_divide_eq pos_divide_less_eq)
  have "(2 :: rat) ^ 52 * 1 \<le> 2 ^ 52 * P" using P(1) by (intro mult_left_mono) simp_all
  then have q0: "2 ^ 52 \<le> q" using q2 by simp
  have "(2 :: rat) ^ 53 * P \<le> 2 ^ 53 * 2 ^ 970" using P(3) by (intro mult_left_mono) simp_all
  then have q1: "q < 2 ^ 1023" using q3 by simp
  have M: "\<bar>of_int M - q / P\<bar> \<le> 1 / 2"
    unfolding M_def by (rule round_half_even_close)
  have m: "to_mantissa 2200 q 0 = (q / P, int k)"
    unfolding P_def using mantissa_down [of q k 2200 0] k by simp
  have qP2: "q / P < 9007199254740992" using qP(2) by simp
  have "rat_of_int M < rat_of_int 9007199254740993"
    using M qP2 by linarith
  then have "M < 9007199254740993"
    by (simp only: of_int_less_iff)
  then have "M \<le> 9007199254740992" by simp
  then have "rat_of_int M \<le> 9007199254740992"
    using of_int_le_iff [of M 9007199254740992, where ?'a = rat] by simp
  then have M_le: "rat_of_int M \<le> 2 ^ 53" by simp
  have r_le: "of_int M * P < 2 ^ 1024"
  proof -
    have "4503599627370496 \<le> q / P" using qP(1) by simp
    then have "rat_of_int 0 \<le> rat_of_int M" using M by linarith
    then have "0 \<le> rat_of_int M" by simp
    then have "of_int M * P \<le> 2 ^ 53 * 2 ^ 970"
      using M_le P by (intro mult_mono) simp_all
    then show ?thesis by simp
  qed
  have g1: "\<not> 2 ^ 1024 \<le> q" using q1 by simp
  have g2: "\<not> q * 2 ^ 1075 \<le> 1"
  proof -
    have "(2 :: rat) ^ 52 * 2 ^ 1075 \<le> q * 2 ^ 1075"
      using q0 by (intro mult_right_mono) simp_all
    then show ?thesis by simp
  qed
  show "round_positive q = Fin (of_int (round_half_even (q / 2 ^ k)) * 2 ^ k)"
    using g1 g2 m r_le
    by (simp add: round_positive_def Let_def pow2_nat M_def [symmetric] P_def [symmetric])
  have "of_int M * P - q = (of_int M - q / P) * P"
    using P(2) by (simp add: field_simps)
  then have "\<bar>of_int M * P - q\<bar> = \<bar>of_int M - q / P\<bar> * P"
    using P(2) by (simp add: abs_mult)
  also have "\<dots> \<le> (1 / 2) * P"
    using M P(2) by (intro mult_right_mono) simp_all
  also have "\<dots> \<le> q / 2 ^ 53"
    using q2 by simp
  finally show "\<bar>of_int (round_half_even (q / 2 ^ k)) * 2 ^ k - q\<bar> \<le> q / 2 ^ 53"
    by (simp add: M_def P_def)
qed

lemma round_positive_error:
  assumes "1 / 2 ^ 1022 \<le> q" "q < 2 ^ 1023"
  shows "\<exists>r. round_positive q = Fin r \<and> \<bar>r - q\<bar> \<le> q / 2 ^ 53"
proof (cases "q < 2 ^ 53")
  case True
  have "0 < q" using assms(1) by (rule less_le_trans [rotated]) simp
  moreover have "2 ^ 52 \<le> q * 2 ^ 1074"
  proof -
    have "1 / 2 ^ 1022 * 2 ^ 1074 \<le> q * 2 ^ 1074"
      using assms(1) by (intro mult_right_mono) simp_all
    then show ?thesis by simp
  qed
  ultimately obtain k where "k \<le> 1074" "2 ^ 52 \<le> q * 2 ^ k" "q * 2 ^ k < 2 ^ 53"
    using scale_up_exists [of q 1074] True by blast
  from round_positive_up [OF this(2,3,1)] show ?thesis by blast
next
  case False
  then have "2 ^ 52 \<le> q" by simp
  moreover have "q / 2 ^ 970 < 2 ^ 53"
    using assms(2) by (simp add: pos_divide_less_eq)
  ultimately obtain k where "k \<le> 970" "2 ^ 52 \<le> q / 2 ^ k" "q / 2 ^ k < 2 ^ 53"
    using scale_down_exists [of q 970] by blast
  from round_positive_down [OF this(2,3,1)] show ?thesis by blast
qed

text \<open>
  In the normal range, rounding changes a value by at most the fraction \<open>2^-53\<close> of
  it.
\<close>

lemma round_double_error:
  assumes "1 / 2 ^ 1022 \<le> \<bar>q\<bar>" "\<bar>q\<bar> < 2 ^ 1023"
  shows "\<exists>r. round_double q = Fin r \<and> \<bar>r - q\<bar> \<le> \<bar>q\<bar> / 2 ^ 53"
proof (cases "0 < q")
  case True
  then show ?thesis
    using round_positive_error [of q] assms by (simp add: round_double_def)
next
  case False
  have "q \<noteq> 0" using assms(1) by auto
  with False have neg: "q < 0" by simp
  then obtain r where "round_positive (- q) = Fin r" "\<bar>r - (- q)\<bar> \<le> (- q) / 2 ^ 53"
    using round_positive_error [of "- q"] assms by auto
  then have "round_double q = Fin (- r)" "\<bar>- r - q\<bar> \<le> \<bar>q\<bar> / 2 ^ 53"
    using neg by (simp_all add: round_double_def abs_minus_commute) 
  then show ?thesis by blast
qed

text \<open>Integers of magnitude below \<open>2^53\<close> are doubles.\<close>

lemma round_double_int:
  assumes "\<bar>z\<bar> < 2 ^ 53"
  shows "round_double (of_int z) = Fin (of_int z)"
proof -
  have pos: "round_positive (of_int n) = Fin (of_int n)" if n: "0 < n" "n < 2 ^ 53" for n :: int
  proof -
    have "rat_of_int n < 2 ^ 53"
      using n(2) by (metis of_int_less_iff of_int_numeral of_int_power)
    moreover have "(1 :: rat) \<le> of_int n" using n(1) by simp
    then have "1 * 2 ^ 52 \<le> rat_of_int n * 2 ^ 52" by (intro mult_right_mono) simp_all
    then have "2 ^ 52 \<le> rat_of_int n * 2 ^ 52" by simp
    ultimately obtain k where k: "k \<le> 52" "2 ^ 52 \<le> rat_of_int n * 2 ^ k"
      "rat_of_int n * 2 ^ k < 2 ^ 53"
      using scale_up_exists [of "of_int n" 52] n(1) by auto
    have "rat_of_int n * 2 ^ k = of_int (n * 2 ^ k)" by simp
    then have "round_half_even (rat_of_int n * 2 ^ k) = n * 2 ^ k"
      by (simp only: round_half_even_int)
    then show ?thesis
      using round_positive_up(1) [OF k(2,3)] k(1) by simp
  qed
  show ?thesis
  proof (cases "z = 0")
    case True
    then show ?thesis by (simp add: round_double_def)
  next
    case False
    show ?thesis
    proof (cases "0 < z")
      case True
      then show ?thesis using pos [of z] assms by (simp add: round_double_def)
    next
      case False
      with \<open>z \<noteq> 0\<close> have "0 < - z" "- z < 2 ^ 53" using assms by auto
      from pos [OF this] show ?thesis using \<open>z \<noteq> 0\<close> False by (simp add: round_double_def)
    qed
  qed
qed

lemma round_double_numeral:
  "numeral k < (2 :: int) ^ 53 \<Longrightarrow> round_double (numeral k) = Fin (numeral k)"
  using round_double_int [of "numeral k"] by simp

subsection \<open>Evaluation\<close>

lemmas parse_defs = StringToNumber_def trim_def is_ws_def parse_nondecimal_def split_sign_def
  parse_unsigned_decimal_def parse_exponent_def parse_radix_def is_digit_def digit_of_def
  digits_val_def pow10_def Let_def round_double_numeral

lemmas clean_defs = data_def clean_row_def field_def or_null_def or_zero_def truthy_num_def
  js_or_def

lemmas row_defs = row_wa_def row_ca_def row_bad_def row_empty_def row_zero_def
  row_negative_def row_half_def row_bad_range_def row_2019_def row_zip_def
  row_blank_def row_23_def row_2675_def

lemmas round_defs = round_double_def round_positive_def round_half_even_def pow2_def
  to_mantissa.simps [of "numeral f" for f]

lemma floor_numeral_div:
  "\<lfloor>(numeral a :: rat) / numeral b\<rfloor> = numeral a div numeral b"
  "\<lfloor>(1 :: rat) / numeral b\<rfloor> = 1 div numeral b"
  "\<lfloor>- (numeral a :: rat) / numeral b\<rfloor> = - numeral a div numeral b"
  using floor_divide_of_int_eq [of "numeral a" "numeral b", where ?'a = rat]
    floor_divide_of_int_eq [of 1 "numeral b", where ?'a = rat]
    floor_divide_of_int_eq [of "- numeral a" "numeral b", where ?'a = rat]
  by simp_all

subsection \<open>Sorting\<close>

lemma mset_insert_by: "mset (insert_by cmp x ys) = add_mset x (mset ys)"
  by (induction ys) auto

lemma mset_sort_by: "mset (sort_by cmp xs) = mset xs"
  by (induction xs) (auto simp: sort_by_def mset_insert_by)

lemma set_sort_by: "set (sort_by cmp xs) = set xs"
  using mset_sort_by [of cmp xs] by (rule mset_eq_setD)

lemma distinct_sort_by: "distinct (sort_by cmp xs) = distinct xs"
  using mset_sort_by [of cmp xs] by (rule mset_eq_imp_distinct_iff)

lemma set_insert_by: "set (insert_by cmp x ys) = insert x (set ys)"
  by (induction ys) auto

text \<open>
  The sort orders its input by the relation "the comparator does not put \<open>a\<close> after
  \<open>b\<close>", provided that relation is total and transitive on the elements.
\<close>

lemma sorted_insert_by:
  assumes total: "\<And>a b. a \<in> S \<Longrightarrow> b \<in> S \<Longrightarrow> num_lt (Fin 0) (cmp a b) \<Longrightarrow> \<not> num_lt (Fin 0) (cmp b a)"
    and trans: "\<And>a b c. a \<in> S \<Longrightarrow> b \<in> S \<Longrightarrow> c \<in> S \<Longrightarrow>
                 \<not> num_lt (Fin 0) (cmp a b) \<Longrightarrow> \<not> num_lt (Fin 0) (cmp b c) \<Longrightarrow> \<not> num_lt (Fin 0) (cmp a c)"
    and "x \<in> S" "set ys \<subseteq> S"
    and "sorted_wrt (\<lambda>a b. \<not> num_lt (Fin 0) (cmp a b)) ys"
  shows "sorted_wrt (\<lambda>a b. \<not> num_lt (Fin 0) (cmp a b)) (insert_by cmp x ys)"
  using assms(3-)
proof (induction ys)
  case Nil
  then show ?case by simp
next
  case (Cons y ys)
  show ?case
  proof (cases "num_lt (Fin 0) (cmp x y)")
    case True
    have yx: "\<not> num_lt (Fin 0) (cmp y x)"
      using total [of x y] True Cons.prems by simp
    have IH: "sorted_wrt (\<lambda>a b. \<not> num_lt (Fin 0) (cmp a b)) (insert_by cmp x ys)"
      using Cons by simp
    have "\<not> num_lt (Fin 0) (cmp y z)" if "z \<in> set (insert_by cmp x ys)" for z
      using that yx Cons.prems(3) by (auto simp: set_insert_by)
    then show ?thesis
      using True IH by simp
  next
    case False
    have "\<not> num_lt (Fin 0) (cmp x z)" if "z \<in> set ys" for z
    proof -
      have "\<not> num_lt (Fin 0) (cmp y z)" "z \<in> S" "y \<in> S"
        using that Cons.prems by auto
      then show ?thesis
        using trans [of x y z] False Cons.prems(1) by blast
    qed
    then show ?thesis
      using False Cons.prems(3) by simp
  qed
qed

lemma sorted_sort_by:
  assumes total: "\<And>a b. a \<in> S \<Longrightarrow> b \<in> S \<Longrightarrow> num_lt (Fin 0) (cmp a b) \<Longrightarrow> \<not> num_lt (Fin 0) (cmp b a)"
    and trans: "\<And>a b c. a \<in> S \<Longrightarrow> b \<in> S \<Longrightarrow> c \<in> S \<Longrightarrow>
                 \<not> num_lt (Fin 0) (cmp a b) \<Longrightarrow> \<not> num_lt (Fin 0) (cmp b c) \<Longrightarrow> \<not> num_lt (Fin 0) (cmp a c)"
    and "set xs \<subseteq> S"
  shows "sorted_wrt (\<lambda>a b. \<not> num_lt (Fin 0) (cmp a b)) (sort_by cmp xs)"
  using assms(3)
proof (induction xs)
  case Nil
  then show ?case by (simp add: sort_by_def)
next
  case (Cons x xs)
  have x: "x \<in> S" and xs: "set (sort_by cmp xs) \<subseteq> S"
    using Cons.prems by (auto simp: set_sort_by)
  have IH: "sorted_wrt (\<lambda>a b. \<not> num_lt (Fin 0) (cmp a b)) (sort_by cmp xs)"
    using Cons by simp
  show ?case
    using sorted_insert_by [of S cmp x "sort_by cmp xs", OF total trans x xs IH]
    by (simp add: sort_by_def)
qed

text \<open>Stability: elements that the comparator never separates keep their order.\<close>

lemma filter_insert_by:
  assumes "\<And>y. P x \<Longrightarrow> P y \<Longrightarrow> \<not> num_lt (Fin 0) (cmp x y)"
  shows "filter P (insert_by cmp x ys) = (if P x then x # filter P ys else filter P ys)"
  using assms by (induction ys) auto

lemma filter_sort_by:
  assumes "\<And>x y. P x \<Longrightarrow> P y \<Longrightarrow> \<not> num_lt (Fin 0) (cmp x y)"
  shows "filter P (sort_by cmp xs) = filter P xs"
proof (induction xs)
  case Nil
  then show ?case by (simp add: sort_by_def)
next
  case (Cons x xs)
  have "filter P (insert_by cmp x (sort_by cmp xs)) =
          (if P x then x # filter P (sort_by cmp xs) else filter P (sort_by cmp xs))"
    by (rule filter_insert_by) (use assms in blast)
  with Cons show ?case by (simp add: sort_by_def)
qed

lemma sorted_wrt_distinct_strict:
  assumes "sorted_wrt R xs" "distinct (map f xs)"
    and "\<And>a b. a \<in> set xs \<Longrightarrow> b \<in> set xs \<Longrightarrow> R a b \<Longrightarrow> f a \<noteq> f b \<Longrightarrow> Q a b"
  shows "sorted_wrt Q xs"
  using assms by (induction xs) auto

subsection \<open>Comparing numbers\<close>

lemma gt0_num_sub: "a \<noteq> NaN \<Longrightarrow> b \<noteq> NaN \<Longrightarrow> num_lt (Fin 0) (num_sub a b) = num_lt b a"
  by (cases a; cases b) auto

lemma num_lt_asym: "num_lt a b \<Longrightarrow> \<not> num_lt b a"
  by (cases a; cases b) auto

lemma num_lt_trans: "num_lt a b \<Longrightarrow> num_lt b c \<Longrightarrow> num_lt a c"
  by (cases a; cases b; cases c) auto

lemma num_lt_linear: "a \<noteq> NaN \<Longrightarrow> b \<noteq> NaN \<Longrightarrow> \<not> num_lt a b \<Longrightarrow> \<not> num_lt b a \<Longrightarrow> a = b"
  by (cases a; cases b) auto

lemma num_le_trans:
  "a \<noteq> NaN \<Longrightarrow> b \<noteq> NaN \<Longrightarrow> c \<noteq> NaN \<Longrightarrow> \<not> num_lt b a \<Longrightarrow> \<not> num_lt c b \<Longrightarrow> \<not> num_lt c a"
  by (cases a; cases b; cases c) auto

subsection \<open>Comparing strings\<close>

lemma code_units_lt_irrefl: "\<not> code_units_lt s s"
  by (induction s) auto

lemma code_units_lt_trans: "code_units_lt a b \<Longrightarrow> code_units_lt b c \<Longrightarrow> code_units_lt a c"
proof (induction a c arbitrary: b rule: code_units_lt.induct)
  case (1 uu)
  then show ?case by (cases b) auto
next
  case (2 y ys)
  then show ?case by simp
next
  case (3 x xs y ys)
  then show ?case by (cases b) (auto simp: of_char_eq_iff)
qed

lemma code_units_lt_asym: "code_units_lt a b \<Longrightarrow> \<not> code_units_lt b a"
  using code_units_lt_trans code_units_lt_irrefl by blast

lemma code_units_lt_linear: "\<not> code_units_lt a b \<Longrightarrow> \<not> code_units_lt b a \<Longrightarrow> a = b"
proof (induction a b rule: code_units_lt.induct)
  case (1 uu)
  then show ?case by (cases uu) auto
next
  case (2 y ys)
  then show ?case by simp
next
  case (3 x xs y ys)
  then show ?case by (auto simp: of_char_eq_iff not_less dest: antisym)
qed

lemma code_units_le_trans:
  "\<not> code_units_lt b a \<Longrightarrow> \<not> code_units_lt c b \<Longrightarrow> \<not> code_units_lt c a"
  by (metis code_units_lt_linear code_units_lt_trans)

subsection \<open>Distinct elements in order of first occurrence\<close>

lemma set_foldl_add:
  "set (foldl (\<lambda>s x. if x \<in> set s then s else s @ [x]) s0 xs) = set s0 \<union> set xs"
  by (induction xs arbitrary: s0) auto

lemma distinct_foldl_add:
  "distinct s0 \<Longrightarrow> distinct (foldl (\<lambda>s x. if x \<in> set s then s else s @ [x]) s0 xs)"
  by (induction xs arbitrary: s0) auto

lemma set_Set_from: "set (Set_from xs) = set xs"
  by (simp add: Set_from_def set_foldl_add)

lemma distinct_Set_from: "distinct (Set_from xs)"
  by (simp add: Set_from_def distinct_foldl_add)

subsection \<open>Cleaning\<close>

lemma truthy_year_clean_row:
  "truthy_year (year (clean_row r)) = truthy_num (Number (field r ''Model Year''))"
  by (simp add: clean_row_def or_null_def)

lemma data_Some:
  "data (Some rows) =
     map clean_row (filter (\<lambda>r. truthy_num (Number (field r ''Model Year''))) rows)"
  by (simp add: data_def filter_map comp_def truthy_year_clean_row)

lemma data_year: "d \<in> set (data rw) \<Longrightarrow> \<exists>n. year d = Some n \<and> truthy_num n"
  by (cases rw; cases "year d") (auto simp: data_def)

lemma data_clean_row: "d \<in> set (data rw) \<Longrightarrow> \<exists>r. d = clean_row r"
  by (cases rw) (auto simp: data_def)





text \<open>
  C1. \<open>clean\<close> keeps, in order and with repetitions, exactly the rows whose
  \<open>Model Year\<close> field converts to a truthy number (not NaN, not zero): the cleaned
  list is the image of those rows, so it is no longer than the raw list, and every
  cleaned record has a year that is not null.
\<close>

theorem clean_drops_rows_without_year:
  "data (Some rows) =
     map clean_row (filter (\<lambda>r. truthy_num (Number (field r ''Model Year''))) rows)
   \<and> length (data (Some rows)) \<le> length rows
   \<and> (\<forall>d \<in> set (data (Some rows)). year d \<noteq> None)"
  using data_year [of _ "Some rows"] by (fastforce simp: data_Some)

theorem clean_drops_rows_without_year_witness:
  "data (Some [row_wa, row_bad, row_empty, row_ca, row_zero, row_wa]) =
     map clean_row [row_wa, row_ca, row_wa]
   \<and> length (data (Some [row_wa, row_bad, row_empty, row_ca, row_zero, row_wa])) \<le> 6
   \<and> map year (data (Some [row_wa, row_bad, row_empty, row_ca, row_zero, row_wa])) =
       [Some (Fin 2020), Some (Fin 2020), Some (Fin 2020)]"
  using clean_drops_rows_without_year
          [of "[row_wa, row_bad, row_empty, row_ca, row_zero, row_wa]"]
  by (simp add: row_defs field_def truthy_num_def parse_defs clean_row_def or_null_def)




text \<open>
  C3, as the specification states it, fails: \<open>Number\<close> does not parse an integer, so a
  fractional \<open>Model Year\<close> survives cleaning unchanged.
\<close>

theorem year_not_integer_counterexample:
  "map year (data (Some [row_half])) = [Some (Fin (4041 / 2))] \<and> \<not> is_integer (4041 / 2)"
  by (simp add: row_half_def clean_defs is_integer_def floor_numeral_div)

text \<open>
  C3, amended. For every cleaned record the year is a number, not null, and it is
  neither NaN nor zero (it need not be an integer).
\<close>

theorem cleaned_year_is_truthy_number:
  "\<forall>d \<in> set (data rw). \<exists>n. year d = Some n \<and> n \<noteq> NaN \<and> n \<noteq> Fin 0"
  using data_year by (fastforce simp: truthy_num_def)

theorem cleaned_year_is_truthy_number_witness:
  "clean_row row_half \<in> set (data (Some [row_bad, row_half]))
   \<and> (\<exists>n. year (clean_row row_half) = Some n \<and> n \<noteq> NaN \<and> n \<noteq> Fin 0)"
proof -
  have h: "clean_row row_half \<in> set (data (Some [row_bad, row_half]))"
    by (simp add: row_defs clean_defs parse_defs)
  show ?thesis
    using h cleaned_year_is_truthy_number [of "Some [row_bad, row_half]"] by blast
qed

subsection \<open>Filtering\<close>

lemma strict_eq_JStr: "strict_eq v (JStr s) = (v = JStr s)"
  by (cases v) auto

lemma keep_spec_iff: "d \<in> set (data rw) \<Longrightarrow> keep f d = keep_spec f d"
  using data_year [of d rw]
  by (auto simp: keep_def keep_spec_def strict_eq_JStr numeric_def num_eq_def truthy_num_def)

text \<open>
  C4. On a cleaned record list, \<open>filter\<close> keeps a record if and only if the selected
  year is \<open>"All"\<close> or the record's year equals the numeric value of the selected year,
  and the selected state is \<open>"All"\<close> or the record's state equals the selected state.
  The result is a list in every case, the empty one included.
\<close>

theorem filter_keeps_exact_matches:
  "filteredData (data rw) f = filter (keep_spec f) (data rw)
   \<and> (d \<in> set (filteredData (data rw) f) \<longleftrightarrow> d \<in> set (data rw) \<and> keep_spec f d)
   \<and> filteredData [] f = []"
proof -
  have "filter (keep f) (data rw) = filter (keep_spec f) (data rw)"
    by (rule filter_cong) (simp_all add: keep_spec_iff)
  then show ?thesis by (auto simp: filteredData_def)
qed

theorem filter_keeps_exact_matches_witness:
  "filteredData (data (Some [row_2019, row_wa, row_negative, row_ca])) \<lparr>sel_year = ''2020'', sel_state = ''All''\<rparr>
     = [clean_row row_wa, clean_row row_ca]
   \<and> filteredData (data (Some [row_2019, row_wa, row_negative, row_ca])) \<lparr>sel_year = ''2020'', sel_state = ''OR''\<rparr>
     = []"
  using filter_keeps_exact_matches [of "Some [row_2019, row_wa, row_negative, row_ca]" "\<lparr>sel_year = ''2020'', sel_state = ''All''\<rparr>"]
    filter_keeps_exact_matches [of "Some [row_2019, row_wa, row_negative, row_ca]" "\<lparr>sel_year = ''2020'', sel_state = ''OR''\<rparr>"]
  by (simp add: row_defs clean_defs parse_defs keep_spec_def numeric_def)

text \<open>
  C8. With the selection \<open>{year: "All", state: "All"}\<close>, \<open>filter\<close> returns its input
  unchanged.
\<close>

theorem filter_all_is_identity:
  "filteredData ds \<lparr>sel_year = ''All'', sel_state = ''All''\<rparr> = ds"
  by (simp add: filteredData_def keep_def)

text \<open>
  C10. The output of \<open>filter\<close> is a subsequence of its input: it is obtained by deleting
  elements, so every output record is an input record and the survivors keep their
  relative order.
\<close>

theorem filter_is_subsequence:
  "subseq (filteredData ds f) ds \<and> set (filteredData ds f) \<subseteq> set ds"
  by (simp add: filteredData_def)

subsection \<open>The average range\<close>

lemma Math_max_length: "Math_max (Fin 1) (Fin (of_nat n)) = Fin (of_nat (max 1 n))"
  by (cases n) (auto simp: Math_max_def max_def)

lemma round2_close: "\<bar>round2 x - x\<bar> \<le> 1 / 200"
proof -
  define k where "k = \<lfloor>x * 100 + 1 / 2\<rfloor>"
  have "of_int k \<le> x * 100 + 1 / 2" "x * 100 + 1 / 2 < of_int k + 1"
    unfolding k_def by linarith+
  then have "\<bar>of_int k - x * 100\<bar> \<le> 1 / 2" by linarith
  then have "\<bar>of_int k / 100 - x\<bar> \<le> 1 / 200" by (simp add: field_simps)
  then show ?thesis by (simp add: round2_def k_def)
qed

text \<open>Sums of integers stay exact as long as they stay below \<open>2^53\<close>.\<close>

lemma foldl_num_add_int:
  "map battery_capacity_kwh fd = map (\<lambda>z. Fin (of_int z)) ns \<Longrightarrow>
   \<bar>a\<bar> + sum_list (map abs ns) < 2 ^ 53 \<Longrightarrow>
   foldl (\<lambda>s d. num_add s (battery_capacity_kwh d)) (Fin (of_int a)) fd =
     Fin (of_int (a + sum_list ns))"
proof (induction fd arbitrary: a ns)
  case Nil
  then show ?case by simp
next
  case (Cons d fd)
  then obtain z ns' where ns: "ns = z # ns'" by (cases ns) auto
  with Cons.prems have d: "battery_capacity_kwh d = Fin (of_int z)"
    and fd: "map battery_capacity_kwh fd = map (\<lambda>z. Fin (of_int z)) ns'"
    by simp_all
  have "0 \<le> sum_list (map abs ns')" by (induction ns') auto
  then have "\<bar>a + z\<bar> < 2 ^ 53" and rest: "\<bar>a + z\<bar> + sum_list (map abs ns') < 2 ^ 53"
    using Cons.prems(2) ns by simp_all
  then have "num_add (Fin (of_int a)) (Fin (of_int z)) = Fin (of_int (a + z))"
    using round_double_int [of "a + z"] by simp
  then show ?case
    using Cons.IH [OF fd rest] d ns by (simp add: add.assoc)
qed

lemma foldl_num_add_not_NaN:
  "\<forall>d \<in> set fd. \<exists>r. battery_capacity_kwh d = Fin r \<Longrightarrow> s \<noteq> NaN \<Longrightarrow>
   foldl (\<lambda>s d. num_add s (battery_capacity_kwh d)) s fd \<noteq> NaN"
proof (induction fd arbitrary: s)
  case Nil
  then show ?case by simp
next
  case (Cons d fd)
  then obtain r where r: "battery_capacity_kwh d = Fin r" by auto
  have "num_add s (Fin r) \<noteq> NaN"
    using Cons.prems(2) round_double_not_NaN by (cases s) auto
  then show ?case using Cons r by simp
qed

lemma num_div_not_NaN: "x \<noteq> NaN \<Longrightarrow> b \<noteq> 0 \<Longrightarrow> num_div x (Fin b) \<noteq> NaN"
  using round_double_not_NaN by (cases x) (auto simp: signed_inf_def)

lemma num_mul_not_NaN: "x \<noteq> NaN \<Longrightarrow> b \<noteq> 0 \<Longrightarrow> num_mul x (Fin b) \<noteq> NaN"
  using round_double_not_NaN by (cases x) (auto simp: signed_inf_def)

lemma Math_round_not_NaN: "x \<noteq> NaN \<Longrightarrow> Math_round x \<noteq> NaN"
  by (cases x) auto

lemma avgBattery_not_NaN:
  assumes "\<forall>d \<in> set fd. \<exists>r. battery_capacity_kwh d = Fin r"
  shows "avgBattery fd \<noteq> NaN"
proof -
  have "rat_of_nat (max 1 (length fd)) \<noteq> 0" by simp
  then show ?thesis
    unfolding avgBattery_def Math_max_length
    by (intro num_div_not_NaN Math_round_not_NaN num_mul_not_NaN foldl_num_add_not_NaN assms)
       simp_all
qed

lemma round_double_error_mid:
  assumes "1 / 1152921504606846976 \<le> \<bar>q\<bar>" "\<bar>q\<bar> < 2305843009213693952"
  shows "\<exists>r. round_double q = Fin r \<and> \<bar>r - q\<bar> \<le> \<bar>q\<bar> / 9007199254740992"
proof -
  have "(1 :: rat) / 2 ^ 1022 \<le> 1 / 2 ^ 60"
    by (intro divide_left_mono power_increasing) simp_all
  moreover have "(1 :: rat) / 2 ^ 60 \<le> \<bar>q\<bar>" using assms(1) by simp
  ultimately have 1: "1 / 2 ^ 1022 \<le> \<bar>q\<bar>" by (rule order_trans)
  have "(2 :: rat) ^ 61 \<le> 2 ^ 1023" by (intro power_increasing) simp_all
  moreover have "\<bar>q\<bar> < 2 ^ 61" using assms(2) by simp
  ultimately have 2: "\<bar>q\<bar> < 2 ^ 1023" by (rule less_le_trans [rotated])
  from round_double_error [OF 1 2] show ?thesis by simp
qed

lemma avgBattery_int_bound:
  assumes ranges: "map battery_capacity_kwh fd = map (\<lambda>z. Fin (of_int z)) ns"
    and small: "sum_list (map abs ns) < 2 ^ 53"
    and len: "length fd < 2 ^ 53"
  shows "\<exists>k r. avgBattery fd = Fin r \<and> round_double (of_int k / 100) = Fin r
           \<and> \<bar>r - of_int (sum_list ns) / of_nat (max 1 (length fd))\<bar>
               \<le> 1 / 200 + (\<bar>of_int (sum_list ns) / of_nat (max 1 (length fd))\<bar> + 1) / 2 ^ 50"
proof -
  define S where "S = sum_list ns"
  define N :: rat where "N = of_nat (max 1 (length fd))"
  define \<mu> where "\<mu> = rat_of_int S / N"
  have N1: "1 \<le> N" by (simp add: N_def)
  have "max 1 (length fd) < 2 ^ 53" using len by simp
  then have "rat_of_nat (max 1 (length fd)) < rat_of_nat (2 ^ 53)"
    by (simp only: of_nat_less_iff)
  then have N2: "N < 9007199254740992" by (simp add: N_def)
  have "\<bar>S\<bar> \<le> sum_list (map abs ns)"
    unfolding S_def by (induction ns) auto
  then have S_small: "\<bar>S\<bar> < 2 ^ 53" using small by simp
  have "foldl (\<lambda>s d. num_add s (battery_capacity_kwh d)) (Fin (of_int 0)) fd =
          Fin (of_int (0 + sum_list ns))"
    by (rule foldl_num_add_int [OF ranges]) (use small in simp)
  then have sum: "foldl (\<lambda>s d. num_add s (battery_capacity_kwh d)) (Fin 0) fd = Fin (of_int S)"
    by (simp add: S_def)
  have avg: "avgBattery fd =
               num_div (Math_round (num_mul (round_double \<mu>) (Fin 100))) (Fin 100)"
    unfolding avgBattery_def Math_max_length sum using N1 by (simp add: N_def \<mu>_def)
  show ?thesis
  proof (cases "S = 0")
    case True
    then have "\<mu> = 0" by (simp add: \<mu>_def)
    then have "avgBattery fd = Fin 0"
      unfolding avg by (simp add: round_double_def floor_numeral_div)
    moreover have "round_double (of_int 0 / 100) = Fin 0" by (simp add: round_double_def)
    ultimately show ?thesis
      using \<open>\<mu> = 0\<close> unfolding \<mu>_def N_def S_def by fastforce
  next
    case False
    then have "1 \<le> \<bar>S\<bar>" by simp
    then have "rat_of_int 1 \<le> rat_of_int \<bar>S\<bar>" by (simp only: of_int_le_iff)
    then have S1: "1 \<le> \<bar>rat_of_int S\<bar>" by simp
    have "rat_of_int \<bar>S\<bar> < rat_of_int (2 ^ 53)" using S_small by (simp only: of_int_less_iff)
    then have S2: "\<bar>rat_of_int S\<bar> < 9007199254740992" by simp
    have muN: "\<bar>\<mu>\<bar> * N = \<bar>rat_of_int S\<bar>"
      using N1 by (simp add: \<mu>_def abs_divide)
    have "\<bar>\<mu>\<bar> * N \<le> \<bar>\<mu>\<bar> * 9007199254740992"
      using N2 by (intro mult_left_mono) simp_all
    then have mu1: "1 / 9007199254740992 \<le> \<bar>\<mu>\<bar>" using muN S1 by simp
    have "\<bar>\<mu>\<bar> * 1 \<le> \<bar>\<mu>\<bar> * N" using N1 by (intro mult_left_mono) simp_all
    then have mu2: "\<bar>\<mu>\<bar> < 9007199254740992" using muN S2 by simp
    obtain m where m: "round_double \<mu> = Fin m" "\<bar>m - \<mu>\<bar> \<le> \<bar>\<mu>\<bar> / 9007199254740992"
      using round_double_error_mid [of \<mu>] mu1 mu2 by auto
    have m1: "\<bar>\<mu>\<bar> / 2 \<le> \<bar>m\<bar>" and m2: "\<bar>m\<bar> \<le> 2 * \<bar>\<mu>\<bar>"
      using m(2) by linarith+
    have y: "\<bar>m * 100\<bar> = 100 * \<bar>m\<bar>" by (simp add: abs_mult)
    have "1 / 1152921504606846976 \<le> \<bar>m * 100\<bar>" "\<bar>m * 100\<bar> < 2305843009213693952"
      unfolding y using m1 m2 mu1 mu2 by linarith+
    then obtain x where x: "round_double (m * 100) = Fin x"
      "\<bar>x - m * 100\<bar> \<le> \<bar>m * 100\<bar> / 9007199254740992"
      using round_double_error_mid [of "m * 100"] by auto
    have x2: "\<bar>x - m * 100\<bar> \<le> 100 * \<bar>m\<bar> / 9007199254740992"
      using x(2) unfolding y .
    define k where "k = \<lfloor>x + 1 / 2\<rfloor>"
    have "of_int k \<le> x + 1 / 2" "x + 1 / 2 < of_int k + 1"
      unfolding k_def by linarith+
    then have k: "\<bar>rat_of_int k - x\<bar> \<le> 1 / 2" by linarith
    have avg': "avgBattery fd = round_double (of_int k / 100)"
      unfolding avg m(1) by (simp add: x(1) k_def)
    define K where "K = rat_of_int k / 100"
    have kbound: "\<bar>K - \<mu>\<bar> \<le> 1 / 200 + 4 * \<bar>\<mu>\<bar> / 9007199254740992"
      unfolding K_def using m(2) m2 x2 k by linarith
    obtain r where r: "round_double K = Fin r" "\<bar>r - K\<bar> \<le> \<bar>K\<bar> / 9007199254740992"
    proof (cases "k = 0")
      case True
      then have "round_double K = Fin 0" "K = 0" by (simp_all add: round_double_def K_def)
      then show ?thesis using that [of 0] by simp
    next
      case False
      then have "1 \<le> \<bar>k\<bar>" by simp
      then have "rat_of_int 1 \<le> rat_of_int \<bar>k\<bar>" by (simp only: of_int_le_iff)
      then have "1 \<le> \<bar>rat_of_int k\<bar>" by simp
      then have "1 / 100 \<le> \<bar>K\<bar>" unfolding K_def by simp
      then have "1 / 1152921504606846976 \<le> \<bar>K\<bar>" by linarith
      moreover have "\<bar>K\<bar> < 2305843009213693952"
        using kbound mu2 by linarith
      ultimately show ?thesis
        using round_double_error_mid [of K] that by auto
    qed
    have Kabs: "\<bar>K\<bar> \<le> 2 * \<bar>\<mu>\<bar> + 1"
      using kbound by linarith
    have rK: "\<bar>r - K\<bar> \<le> 2 * \<bar>\<mu>\<bar> / 9007199254740992 + 1 / 9007199254740992"
      using r(2) Kabs by (simp add: field_simps)
    have "\<bar>r - \<mu>\<bar> \<le> \<bar>r - K\<bar> + \<bar>K - \<mu>\<bar>"
      by linarith
    then have "\<bar>r - \<mu>\<bar> \<le> 1 / 200 + 6 * \<bar>\<mu>\<bar> / 9007199254740992 + 1 / 9007199254740992"
      using rK kbound by linarith
    then have "\<bar>r - \<mu>\<bar> \<le> 1 / 200 + (\<bar>\<mu>\<bar> / 1125899906842624 + 1 / 1125899906842624)"
      by linarith
    then have "\<bar>r - \<mu>\<bar> \<le> 1 / 200 + (\<bar>\<mu>\<bar> + 1) / 1125899906842624"
      by (simp only: add_divide_distrib)
    then have "\<bar>r - \<mu>\<bar> \<le> 1 / 200 + (\<bar>\<mu>\<bar> + 1) / 2 ^ 50"
      by simp
    then show ?thesis
      using avg' r(1) unfolding \<mu>_def N_def S_def K_def by auto
  qed
qed

lemma avgBattery_shape:
  "avgBattery fd = NaN \<or> avgBattery fd = PosInf \<or> avgBattery fd = NegInf
   \<or> (\<exists>k. avgBattery fd = round_double (of_int k / 100))"
proof -
  define X where "X = num_mul (num_div (foldl (\<lambda>s d. num_add s (battery_capacity_kwh d)) (Fin 0) fd)
                       (Math_max (Fin 1) (Fin (of_nat (length fd))))) (Fin 100)"
  have a: "avgBattery fd = num_div (Math_round X) (Fin 100)"
    by (simp add: avgBattery_def X_def)
  show ?thesis
  proof (cases X)
    case (Fin x)
    then have "avgBattery fd = round_double (of_int \<lfloor>x + 1 / 2\<rfloor> / 100)"
      by (simp add: a)
    then show ?thesis by blast
  qed (simp_all add: a signed_inf_def)
qed

text \<open>
  C7, as the specification states it, fails: the quotient, the product by 100 and the
  final quotient are each rounded to a double, so the result is not always the mean
  rounded to two decimals. Forty records with one range of 23 and the others 0 have the
  mean \<open>0.575\<close>, which rounds to \<open>0.58\<close>; the double nearest \<open>23 / 40\<close> times 100 is
  just below \<open>57.5\<close>, \<open>Math.round\<close> gives 57 and the result is the double \<open>0.57\<close>.
  A single record whose range is the double written \<open>2.675\<close>, which lies below
  \<open>2.675\<close> and rounds to \<open>2.67\<close>, gives \<open>2.68\<close>: the product by 100 rounds up to
  \<open>267.5\<close>.
\<close>

theorem avgBattery_not_rounded_mean_counterexample:
  "map battery_capacity_kwh (data (Some (row_23 # replicate 39 row_ca))) =
     map Fin (23 # replicate 39 0)
   \<and> avgBattery (data (Some (row_23 # replicate 39 row_ca))) =
       Fin (5134103575202365 / 9007199254740992)
   \<and> avgRange_spec (23 # replicate 39 0) = 58 / 100
   \<and> round_double (58 / 100) = Fin (5224175567749775 / 9007199254740992)
   \<and> avgBattery (data (Some (row_23 # replicate 39 row_ca))) \<noteq>
       round_double (avgRange_spec (23 # replicate 39 0))
   \<and> map battery_capacity_kwh (data (Some [row_2675])) =
       map Fin [3011782250804019 / 1125899906842624]
   \<and> avgBattery (data (Some [row_2675])) = Fin (6034823500676465 / 2251799813685248)
   \<and> avgRange_spec [3011782250804019 / 1125899906842624] = 267 / 100
   \<and> round_double (268 / 100) = Fin (6034823500676465 / 2251799813685248)"
proof -
  have d: "data (Some (row_23 # replicate 39 row_ca)) =
             clean_row row_23 # replicate 39 (clean_row row_ca)"
    by (simp add: data_Some row_defs field_def truthy_num_def filter_replicate)
  have b: "map battery_capacity_kwh (clean_row row_23 # replicate 39 (clean_row row_ca)) =
             map (\<lambda>z. Fin (of_int z)) (23 # replicate 39 0)"
    by (simp add: clean_row_def row_defs field_def or_zero_def truthy_num_def)
  have "foldl (\<lambda>s d. num_add s (battery_capacity_kwh d)) (Fin (of_int 0))
          (clean_row row_23 # replicate 39 (clean_row row_ca)) =
        Fin (of_int (0 + sum_list (23 # replicate 39 0)))"
    by (rule foldl_num_add_int [OF b]) (simp add: sum_list_replicate)
  then have sum: "foldl (\<lambda>s d. num_add s (battery_capacity_kwh d)) (Fin 0)
          (clean_row row_23 # replicate 39 (clean_row row_ca)) = Fin 23"
    by (simp add: sum_list_replicate)
  have s1: "num_div (Fin 23) (Fin 40) = Fin (2589569785738035 / 4503599627370496)"
    by (simp add: round_defs Let_def floor_numeral_div)
  have s2: "num_mul (Fin (2589569785738035 / 4503599627370496)) (Fin 100) =
              Fin (8092405580431359 / 140737488355328)"
    by (simp add: round_defs Let_def floor_numeral_div)
  have s3: "Math_round (Fin (8092405580431359 / 140737488355328)) = Fin 57"
    by (simp add: floor_numeral_div)
  have s4: "num_div (Fin 57) (Fin 100) = Fin (5134103575202365 / 9007199254740992)"
    by (simp add: round_defs Let_def floor_numeral_div)
  have "avgBattery (clean_row row_23 # replicate 39 (clean_row row_ca)) =
          num_div (Math_round (num_mul (num_div (Fin 23) (Fin 40)) (Fin 100))) (Fin 100)"
    unfolding avgBattery_def sum by (simp add: Math_max_def)
  then have a: "avgBattery (clean_row row_23 # replicate 39 (clean_row row_ca)) =
          Fin (5134103575202365 / 9007199254740992)"
    by (simp only: s1 s2 s3 s4)
  have m: "avgRange_spec (23 # replicate 39 0) = 58 / 100"
    by (simp add: avgRange_spec_def round2_def sum_list_replicate floor_numeral_div)
  have r: "round_double (58 / 100) = Fin (5224175567749775 / 9007199254740992)"
    by (simp add: round_defs Let_def floor_numeral_div)
  have d': "data (Some [row_2675]) = [clean_row row_2675]"
    by (simp add: data_Some row_defs field_def truthy_num_def)
  have n: "Number (JStr ''2.675'') = Fin (3011782250804019 / 1125899906842624)"
    by (simp add: parse_defs round_defs Let_def floor_numeral_div)
  have b': "map battery_capacity_kwh [clean_row row_2675] =
              map Fin [3011782250804019 / 1125899906842624]"
    using n by (simp add: clean_row_def row_2675_def field_def or_zero_def truthy_num_def)
  have t0: "num_add (Fin 0) (Fin (3011782250804019 / 1125899906842624)) =
              Fin (3011782250804019 / 1125899906842624)"
    by (simp add: round_defs Let_def floor_numeral_div)
  have t1: "num_div (Fin (3011782250804019 / 1125899906842624)) (Fin 1) =
              Fin (3011782250804019 / 1125899906842624)"
    by (simp add: round_defs Let_def floor_numeral_div)
  have t2: "num_mul (Fin (3011782250804019 / 1125899906842624)) (Fin 100) = Fin (535 / 2)"
    by (simp add: round_defs Let_def floor_numeral_div)
  have t3: "Math_round (Fin (535 / 2)) = Fin 268"
    by (simp add: floor_numeral_div)
  have t4: "num_div (Fin 268) (Fin 100) = Fin (6034823500676465 / 2251799813685248)"
    by (simp add: round_defs Let_def floor_numeral_div)
  have "avgBattery [clean_row row_2675] =
          num_div (Math_round (num_mul (num_div
            (num_add (Fin 0) (Fin (3011782250804019 / 1125899906842624))) (Fin 1)) (Fin 100)))
            (Fin 100)"
    using b' unfolding avgBattery_def by (simp add: Math_max_def)
  then have a': "avgBattery [clean_row row_2675] = Fin (6034823500676465 / 2251799813685248)"
    by (simp only: t0 t1 t2 t3 t4)
  have m': "avgRange_spec [3011782250804019 / 1125899906842624] = 267 / 100"
    by (simp add: avgRange_spec_def round2_def floor_numeral_div)
  have r': "round_double (268 / 100) = Fin (6034823500676465 / 2251799813685248)"
    by (simp add: round_defs Let_def floor_numeral_div)
  have b2: "map battery_capacity_kwh (clean_row row_23 # replicate 39 (clean_row row_ca)) =
             map Fin (23 # replicate 39 0)"
    using b by simp
  have ne: "avgBattery (clean_row row_23 # replicate 39 (clean_row row_ca)) \<noteq>
              round_double (avgRange_spec (23 # replicate 39 0))"
    unfolding a m r by simp
  show ?thesis
    unfolding d d' using b2 a m r ne b' a' m' r' by (simp only: simp_thms)
qed

text \<open>
  C7, amended. \<open>avgBattery\<close> is the sum of the ranges divided by \<open>max(1, count)\<close>,
  times 100, rounded by \<open>Math.round\<close>, divided by 100, each step in double arithmetic.
  The divisor is at least 1, so no division by zero is reached, and on the empty list
  the result is exactly 0. A finite result is the double nearest to a multiple of
  \<open>0.01\<close>. For finite ranges the result is not NaN. For integer ranges whose absolute
  values sum to less than \<open>2^53\<close> the result is finite and within
  \<open>0.005 + (|mean| + 1) / 2^50\<close> of the exact mean.
\<close>

theorem avgBattery_rounds_in_doubles:
  "avgBattery [] = Fin 0
   \<and> num_lt (Fin 0) (Math_max (Fin 1) (Fin (of_nat (length fd))))
   \<and> avgBattery fd =
       num_div
         (Math_round
            (num_mul
               (num_div (foldl num_add (Fin 0) (map battery_capacity_kwh fd))
                        (Fin (of_nat (max 1 (length fd)))))
               (Fin 100)))
         (Fin 100)
   \<and> (avgBattery fd = NaN \<or> avgBattery fd = PosInf \<or> avgBattery fd = NegInf
        \<or> (\<exists>k. avgBattery fd = round_double (of_int k / 100)))
   \<and> ((\<forall>d \<in> set fd. \<exists>r. battery_capacity_kwh d = Fin r) \<longrightarrow> avgBattery fd \<noteq> NaN)
   \<and> (map battery_capacity_kwh fd = map (\<lambda>z. Fin (of_int z)) ns
        \<and> sum_list (map abs ns) < 2 ^ 53 \<and> length fd < 2 ^ 53 \<longrightarrow>
        (\<exists>k r. avgBattery fd = Fin r \<and> round_double (of_int k / 100) = Fin r
           \<and> \<bar>r - of_int (sum_list ns) / of_nat (max 1 (length fd))\<bar>
               \<le> 1 / 200 + (\<bar>of_int (sum_list ns) / of_nat (max 1 (length fd))\<bar> + 1) / 2 ^ 50))"
proof -
  have "avgBattery [] = Fin 0"
    by (simp add: avgBattery_def Math_max_def round_double_def floor_numeral_div)
  moreover have "num_lt (Fin 0) (Math_max (Fin 1) (Fin (of_nat (length fd))))"
    by (subst Math_max_length) simp
  moreover have "avgBattery fd =
       num_div
         (Math_round
            (num_mul
               (num_div (foldl num_add (Fin 0) (map battery_capacity_kwh fd))
                        (Fin (of_nat (max 1 (length fd)))))
               (Fin 100)))
         (Fin 100)"
    unfolding avgBattery_def Math_max_length foldl_map ..
  moreover note avgBattery_shape [of fd]
  moreover have "(\<forall>d \<in> set fd. \<exists>r. battery_capacity_kwh d = Fin r) \<longrightarrow> avgBattery fd \<noteq> NaN"
    using avgBattery_not_NaN [of fd] by blast
  moreover have "map battery_capacity_kwh fd = map (\<lambda>z. Fin (of_int z)) ns
        \<and> sum_list (map abs ns) < 2 ^ 53 \<and> length fd < 2 ^ 53 \<longrightarrow>
        (\<exists>k r. avgBattery fd = Fin r \<and> round_double (of_int k / 100) = Fin r
           \<and> \<bar>r - of_int (sum_list ns) / of_nat (max 1 (length fd))\<bar>
               \<le> 1 / 200 + (\<bar>of_int (sum_list ns) / of_nat (max 1 (length fd))\<bar> + 1) / 2 ^ 50)"
    using avgBattery_int_bound [of fd ns] by blast
  ultimately show ?thesis by (intro conjI)
qed

theorem avgBattery_rounds_in_doubles_witness:
  "map battery_capacity_kwh (data (Some [row_wa, row_ca, row_negative])) =
     map (\<lambda>z. Fin (of_int z)) [150, 0, - 5]
   \<and> sum_list (map abs [150, 0, - 5 :: int]) = 155
   \<and> length (data (Some [row_wa, row_ca, row_negative])) = 3
   \<and> avgBattery (data (Some [row_wa, row_ca, row_negative])) =
       Fin (3400921406106501 / 70368744177664)
   \<and> round_double (4833 / 100) = Fin (3400921406106501 / 70368744177664)
   \<and> avgBattery (data (Some [row_wa, row_ca, row_negative])) \<noteq> NaN"
proof -
  define fd where "fd = data (Some [row_wa, row_ca, row_negative])"
  have h: "map battery_capacity_kwh fd = map (\<lambda>z. Fin (of_int z)) [150, 0, - 5]"
    unfolding fd_def by (simp add: row_defs clean_defs parse_defs)
  have s: "sum_list (map abs [150, 0, - 5 :: int]) = 155" by simp
  have l: "length fd = 3"
    unfolding fd_def by (simp add: data_Some row_defs field_def truthy_num_def)
  have "foldl (\<lambda>s d. num_add s (battery_capacity_kwh d)) (Fin (of_int 0)) fd =
          Fin (of_int (0 + sum_list [150, 0, - 5]))"
    by (rule foldl_num_add_int [OF h]) simp
  then have sum: "foldl (\<lambda>s d. num_add s (battery_capacity_kwh d)) (Fin 0) fd = Fin 145"
    by simp
  have s1: "num_div (Fin 145) (Fin 3) = Fin (6802311937174187 / 140737488355328)"
    by (simp add: round_defs Let_def floor_numeral_div)
  have s2: "num_mul (Fin (6802311937174187 / 140737488355328)) (Fin 100) =
              Fin (2657153100458667 / 549755813888)"
    by (simp add: round_defs Let_def floor_numeral_div)
  have s3: "Math_round (Fin (2657153100458667 / 549755813888)) = Fin 4833"
    by (simp add: floor_numeral_div)
  have s4: "num_div (Fin 4833) (Fin 100) = Fin (3400921406106501 / 70368744177664)"
    by (simp add: round_defs Let_def floor_numeral_div)
  have "avgBattery fd =
          num_div (Math_round (num_mul (num_div (Fin 145) (Fin 3)) (Fin 100))) (Fin 100)"
    unfolding avgBattery_def sum l by (simp add: Math_max_def)
  then have a: "avgBattery fd = Fin (3400921406106501 / 70368744177664)"
    by (simp only: s1 s2 s3 s4)
  have r: "round_double (4833 / 100) = Fin (3400921406106501 / 70368744177664)"
    by (simp add: round_defs Let_def floor_numeral_div)
  have "sum_list (map abs [150, 0, - 5 :: int]) < 2 ^ 53" "length fd < 2 ^ 53"
    unfolding l by simp_all
  with h avgBattery_rounds_in_doubles [of fd "[150, 0, - 5]"]
  obtain k q where "avgBattery fd = Fin q" by blast
  then have n: "avgBattery fd \<noteq> NaN" by simp
  show ?thesis
    using h s l a r n unfolding fd_def by (simp only: simp_thms)
qed

subsection \<open>Dropdown options\<close>

lemma data_state_truthy: "d \<in> set (data rw) \<Longrightarrow> truthy (state d)"
  using data_clean_row [of d rw] by (auto simp: clean_row_def js_or_def)

lemma years_sorted:
  assumes "\<forall>d \<in> set ds. \<exists>n. year d = Some n \<and> n \<noteq> NaN"
  shows "\<exists>ns. years ds = JStr ''All'' # map JNum ns
              \<and> sorted_wrt num_lt ns \<and> set ns = {n. \<exists>d \<in> set ds. year d = Some n}"
proof -
  define cmp where "cmp = (\<lambda>a b. num_sub (Number (year_val a)) (Number (year_val b)))"
  define ys where "ys = sort_by cmp (Set_from (map year ds))"
  define S where "S = {y. \<exists>n. y = Some n \<and> n \<noteq> NaN}"
  have sub: "set (Set_from (map year ds)) \<subseteq> S"
    using assms by (auto simp: set_Set_from S_def)
  have gt: "num_lt (Fin 0) (cmp a b) = num_lt (the b) (the a)" if "a \<in> S" "b \<in> S" for a b
    using that by (auto simp: S_def cmp_def gt0_num_sub)
  have sorted: "sorted_wrt (\<lambda>a b. \<not> num_lt (Fin 0) (cmp a b)) ys"
    unfolding ys_def
  proof (rule sorted_sort_by [where S = S])
    show "\<not> num_lt (Fin 0) (cmp b a)" if "a \<in> S" "b \<in> S" "num_lt (Fin 0) (cmp a b)" for a b
      using that gt num_lt_asym by auto
    show "\<not> num_lt (Fin 0) (cmp a c)"
      if "a \<in> S" "b \<in> S" "c \<in> S" "\<not> num_lt (Fin 0) (cmp a b)" "\<not> num_lt (Fin 0) (cmp b c)"
      for a b c
    proof -
      have "the a \<noteq> NaN" "the b \<noteq> NaN" "the c \<noteq> NaN"
        using that by (auto simp: S_def)
      then show ?thesis
        using that gt num_le_trans [of "the a" "the b" "the c"] by auto
    qed
    show "set (Set_from (map year ds)) \<subseteq> S" by (rule sub)
  qed
  have set_ys: "set ys = year ` set ds"
    by (simp add: ys_def set_sort_by set_Set_from)
  have dist: "distinct ys"
    by (simp add: ys_def distinct_sort_by distinct_Set_from)
  have inS: "y \<in> S" if "y \<in> set ys" for y
    using that sub by (auto simp: ys_def set_sort_by)
  have strict: "sorted_wrt (\<lambda>a b. num_lt (the a) (the b)) ys"
  proof (rule sorted_wrt_distinct_strict [where f = id and R = "\<lambda>a b. \<not> num_lt (Fin 0) (cmp a b)"])
    show "sorted_wrt (\<lambda>a b. \<not> num_lt (Fin 0) (cmp a b)) ys" by (rule sorted)
    show "distinct (map id ys)" using dist by simp
    show "num_lt (the a) (the b)"
      if ab: "a \<in> set ys" "b \<in> set ys" "\<not> num_lt (Fin 0) (cmp a b)" "id a \<noteq> id b" for a b
    proof -
      obtain n m where nm: "a = Some n" "b = Some m" "n \<noteq> NaN" "m \<noteq> NaN"
        using inS [OF ab(1)] inS [OF ab(2)] by (auto simp: S_def)
      then have "\<not> num_lt m n" "n \<noteq> m"
        using ab gt [of a b] inS by auto
      then show ?thesis
        using nm num_lt_linear [of n m] by auto
    qed
  qed
  have yv: "year_val y = JNum (the y)" if "y \<in> set ys" for y
    using inS [OF that] by (auto simp: S_def)
  have ym: "map year_val ys = map JNum (map the ys)"
    using yv by simp
  have "years ds = JStr ''All'' # map year_val ys"
    unfolding years_def ys_def cmp_def ..
  then have "years ds = JStr ''All'' # map JNum (map the ys)"
    by (simp only: ym)
  moreover have "sorted_wrt num_lt (map the ys)"
    using strict by (simp add: sorted_wrt_map)
  moreover have "set (map the ys) = {n. \<exists>d \<in> set ds. year d = Some n}"
  proof -
    have "set (map the ys) = the ` year ` set ds" using set_ys by simp
    also have "\<dots> = {n. \<exists>d \<in> set ds. year d = Some n}"
      using assms by (force simp: image_iff)
    finally show ?thesis .
  qed
  ultimately show ?thesis by blast
qed

lemma states_sorted:
  assumes "\<forall>d \<in> set ds. state d \<noteq> JUndefined"
  shows "\<exists>ss. states ds = JStr ''All'' # ss \<and> distinct ss \<and> set ss = state ` set ds
              \<and> sorted_wrt (\<lambda>a b. \<not> code_units_lt (ToString b) (ToString a)) ss"
proof -
  define ss where "ss = sort_by SortCompare (Set_from (map state ds))"
  define S where "S = {v. v \<noteq> JUndefined}"
  have gt: "num_lt (Fin 0) (SortCompare a b) = code_units_lt (ToString b) (ToString a)"
    if "a \<in> S" "b \<in> S" for a b
    using that code_units_lt_asym [of "ToString a" "ToString b"]
    by (auto simp: S_def SortCompare_def)
  have sub: "set (Set_from (map state ds)) \<subseteq> S"
    using assms by (auto simp: set_Set_from S_def)
  have sorted: "sorted_wrt (\<lambda>a b. \<not> num_lt (Fin 0) (SortCompare a b)) ss"
    unfolding ss_def
  proof (rule sorted_sort_by [where S = S])
    show "\<not> num_lt (Fin 0) (SortCompare b a)"
      if "a \<in> S" "b \<in> S" "num_lt (Fin 0) (SortCompare a b)" for a b
      using that gt code_units_lt_asym by auto
    show "\<not> num_lt (Fin 0) (SortCompare a c)"
      if "a \<in> S" "b \<in> S" "c \<in> S" "\<not> num_lt (Fin 0) (SortCompare a b)"
        "\<not> num_lt (Fin 0) (SortCompare b c)" for a b c
      using that gt code_units_le_trans [of "ToString b" "ToString a" "ToString c"] by auto
    show "set (Set_from (map state ds)) \<subseteq> S" by (rule sub)
  qed
  have inS: "v \<in> S" if "v \<in> set ss" for v
    using that sub by (auto simp: ss_def set_sort_by)
  have "sorted_wrt (\<lambda>a b. \<not> code_units_lt (ToString b) (ToString a)) ss"
    by (rule sorted_wrt_mono_rel [OF _ sorted]) (use gt inS in auto)
  moreover have "distinct ss" "set ss = state ` set ds"
    by (simp_all add: ss_def distinct_sort_by distinct_Set_from set_sort_by set_Set_from)
  moreover have "states ds = JStr ''All'' # ss"
    by (simp add: states_def ss_def)
  ultimately show ?thesis by blast
qed

text \<open>
  C9. The two option lists are computed from the cleaned dataset alone: whatever the
  selection, the component offers the same lists, \<open>years\<close> and \<open>states\<close> of the
  cleaned data. Each starts with \<open>"All"\<close>; the years follow, each once and strictly
  ascending; the states follow, each once and ordered by their strings, code unit by
  code unit.
\<close>

theorem dropdown_options_ignore_selection:
  "options_of (App ld f1 now) = options_of (App ld f2 now)
   \<and> (\<forall>v. App ld f now = DashboardScreen v \<longrightarrow>
          year_options v = years (data (raw ld)) \<and> state_options v = states (data (raw ld)))
   \<and> (\<exists>ns. years (data (raw ld)) = JStr ''All'' # map JNum ns
             \<and> sorted_wrt num_lt ns
             \<and> set ns = {n. \<exists>d \<in> set (data (raw ld)). year d = Some n})
   \<and> (\<exists>ss. states (data (raw ld)) = JStr ''All'' # ss
             \<and> distinct ss \<and> set ss = state ` set (data (raw ld))
             \<and> sorted_wrt (\<lambda>a b. \<not> code_units_lt (ToString b) (ToString a)) ss)"
proof -
  have 1: "options_of (App ld f1 now) = options_of (App ld f2 now)"
    by (simp add: App_def Let_def split: option.splits)
  have 2: "year_options v = years (data (raw ld)) \<and> state_options v = states (data (raw ld))"
    if "App ld f now = DashboardScreen v" for v
    using that by (auto simp: App_def Let_def split: if_splits option.splits)
  have y: "\<forall>d \<in> set (data (raw ld)). \<exists>n. year d = Some n \<and> n \<noteq> NaN"
    using data_year by (fastforce simp: truthy_num_def)
  have s: "\<forall>d \<in> set (data (raw ld)). state d \<noteq> JUndefined"
    using data_state_truthy by fastforce
  show ?thesis
    using 1 2 years_sorted [OF y] states_sorted [OF s] by blast
qed

lemmas sort_defs = sort_by_def Set_from_def SortCompare_def

theorem dropdown_options_ignore_selection_witness:
  "options_of (App loaded_sample \<lparr>sel_year = ''All'', sel_state = ''All''\<rparr> 2024) =
     Some ([JStr ''All'', JNum (Fin 2019), JNum (Fin 2020)], [JStr ''All'', JStr ''CA'', JStr ''WA''])
   \<and> options_of (App loaded_sample \<lparr>sel_year = ''2019'', sel_state = ''CA''\<rparr> 2024) =
     Some ([JStr ''All'', JNum (Fin 2019), JNum (Fin 2020)], [JStr ''All'', JStr ''CA'', JStr ''WA''])"
proof -
  have d: "data (raw loaded_sample) = map clean_row [row_wa, row_2019, row_ca]"
    by (simp add: loaded_sample_def data_Some row_defs field_def truthy_num_def parse_defs)
  have y: "years (map clean_row [row_wa, row_2019, row_ca]) = [JStr ''All'', JNum (Fin 2019), JNum (Fin 2020)]"
    by (simp add: years_def sort_defs clean_row_def row_defs field_def or_null_def truthy_num_def)
  have s: "states (map clean_row [row_wa, row_2019, row_ca]) = [JStr ''All'', JStr ''CA'', JStr ''WA'']"
    by (simp add: states_def sort_defs clean_row_def row_defs field_def js_or_def)
  have "options_of (App loaded_sample \<lparr>sel_year = ''All'', sel_state = ''All''\<rparr> 2024) =
     Some ([JStr ''All'', JNum (Fin 2019), JNum (Fin 2020)], [JStr ''All'', JStr ''CA'', JStr ''WA''])"
    unfolding App_def Let_def d y s by (simp add: loaded_sample_def)
  then show ?thesis
    using dropdown_options_ignore_selection [of loaded_sample
        "\<lparr>sel_year = ''All'', sel_state = ''All''\<rparr>" 2024 "\<lparr>sel_year = ''2019'', sel_state = ''CA''\<rparr>"]
    by simp
qed

subsection \<open>Counting in an object\<close>

lemma map_fst_bump:
  "map fst (bump k m) = (if k \<in> set (map fst m) then map fst m else map fst m @ [k])"
  by (induction m) (auto simp: rev_image_eqI)

lemma sum_snd_bump: "sum_list (map snd (bump k m)) = Suc (sum_list (map snd m))"
  by (induction m) auto

lemma map_of_bump:
  "map_of (bump k m) k' =
     (if k' = k then Some (case map_of m k of None \<Rightarrow> 1 | Some c \<Rightarrow> c + 1) else map_of m k')"
  by (induction m) auto

lemma keys_count_table:
  "map fst (foldl (\<lambda>m d. bump (g d) m) m0 fd) =
     foldl (\<lambda>s x. if x \<in> set s then s else s @ [x]) (map fst m0) (map g fd)"
  by (induction fd arbitrary: m0) (simp_all add: map_fst_bump)

lemma sum_count_table:
  "sum_list (map snd (foldl (\<lambda>m d. bump (g d) m) m0 fd)) = sum_list (map snd m0) + length fd"
  by (induction fd arbitrary: m0) (simp_all add: sum_snd_bump)

lemma map_of_count_table:
  "map_of (foldl (\<lambda>m d. bump (g d) m) m0 fd) k =
     (case map_of m0 k of
        None \<Rightarrow> if k \<in> g ` set fd then Some (length (filter (\<lambda>d. g d = k) fd)) else None
      | Some c \<Rightarrow> Some (c + length (filter (\<lambda>d. g d = k) fd)))"
proof (induction fd arbitrary: m0)
  case Nil
  then show ?case by (simp split: option.splits)
next
  case (Cons d fd)
  show ?case
    by (simp add: Cons.IH map_of_bump split: option.splits)
qed

lemma map_snd_index_entries:
  "map snd (List.map_filter (\<lambda>e. map_option (\<lambda>i. (i, e)) (idx (fst e))) m) =
     filter (\<lambda>e. idx (fst e) \<noteq> None) m"
  by (induction m) (auto simp: List.map_filter_simps split: option.splits)

lemma mset_Object_entries: "mset (Object_entries idx m) = mset m"
proof -
  have "mset (map snd (sort_key fst (List.map_filter (\<lambda>e. map_option (\<lambda>i. (i, e)) (idx (fst e))) m)))
          = mset (map snd (List.map_filter (\<lambda>e. map_option (\<lambda>i. (i, e)) (idx (fst e))) m))"
    by simp
  also have "\<dots> = mset (filter (\<lambda>e. idx (fst e) \<noteq> None) m)"
    by (simp only: map_snd_index_entries)
  finally have "mset (map snd (sort_key fst (List.map_filter (\<lambda>e. map_option (\<lambda>i. (i, e)) (idx (fst e))) m)))
          = mset (filter (\<lambda>e. idx (fst e) \<noteq> None) m)" .
  then have "mset (Object_entries idx m) =
          filter_mset (\<lambda>e. idx (fst e) \<noteq> None) (mset m) + filter_mset (\<lambda>e. \<not> idx (fst e) \<noteq> None) (mset m)"
    unfolding Object_entries_def by simp
  then show ?thesis by (simp only: multiset_partition [symmetric])
qed

lemma index_entries_empty:
  "\<forall>e \<in> set m. idx (fst e) = None \<Longrightarrow>
   List.map_filter (\<lambda>e. map_option (\<lambda>i. (i, e)) (idx (fst e))) m = []"
  by (induction m) (auto simp: List.map_filter_simps)

lemma Object_entries_no_index:
  "\<forall>e \<in> set m. idx (fst e) = None \<Longrightarrow> Object_entries idx m = m"
  by (simp add: Object_entries_def index_entries_empty)

subsection \<open>Registrations by year\<close>

lemma sum_list_mset_cong: "mset xs = mset ys \<Longrightarrow> sum_list xs = (sum_list ys :: nat)"
  by (metis sum_mset_sum_list)

lemma yearly_props:
  assumes yrs: "\<forall>d \<in> set fd. \<exists>n. year d = Some n \<and> n \<noteq> NaN"
  shows "sorted_wrt (\<lambda>a b. num_lt (fst a) (fst b)) (yearly fd)"
    and "distinct (map fst (yearly fd))"
    and "set (map fst (yearly fd)) = {n. \<exists>d \<in> set fd. year d = Some n}"
    and "\<forall>n c. (n, c) \<in> set (yearly fd) \<longrightarrow> c = length (filter (\<lambda>d. year d = Some n) fd)"
    and "sum_list (map snd (yearly fd)) = length fd"
proof -
  define T where "T = foldl (\<lambda>m d. bump (year d) m) [] fd"
  define g where "g = (\<lambda>(k :: jsnum option, c :: nat). (key_number k, c))"
  define cmp where "cmp = (\<lambda>(a :: jsnum \<times> nat) (b :: jsnum \<times> nat). num_sub (fst a) (fst b))"
  define G where "G = map g (Object_entries year_index T)"
  have yearly: "yearly fd = sort_by cmp G"
    unfolding yearly_def G_def g_def cmp_def T_def ..
  have keys: "map fst T = Set_from (map year fd)"
    unfolding T_def Set_from_def by (simp add: keys_count_table)
  have dist_T: "distinct (map fst T)"
    by (simp add: keys distinct_Set_from)
  have set_T: "set (map fst T) = year ` set fd"
    by (simp add: keys set_Set_from)
  have key_ok: "\<exists>n. k = Some n \<and> n \<noteq> NaN" if "k \<in> set (map fst T)" for k
    using that yrs unfolding set_T by auto
  have mset_G: "mset G = image_mset g (mset T)"
    by (simp add: G_def mset_Object_entries)
  have mset_y: "mset (yearly fd) = image_mset g (mset T)"
    by (simp add: yearly mset_sort_by mset_G)
  have set_y: "set (yearly fd) = g ` set T"
    using mset_y by (metis set_image_mset set_mset_mset)
  have fst_g: "fst (g e) = key_number (fst e)" and snd_g: "snd (g e) = snd e" for e
    by (simp_all add: g_def split: prod.splits)
  have mset_fst: "mset (map fst (yearly fd)) = mset (map key_number (map fst T))"
    by (simp add: mset_y fst_g multiset.map_comp comp_def)
  have inj: "inj_on key_number (set (map fst T))"
  proof (rule inj_onI)
    fix x y
    assume xy: "x \<in> set (map fst T)" "y \<in> set (map fst T)" "key_number x = key_number y"
    obtain n m where "x = Some n" "y = Some m"
      using key_ok [OF xy(1)] key_ok [OF xy(2)] by auto
    with xy(3) show "x = y" by simp
  qed
  have "distinct (map key_number (map fst T))"
    using dist_T inj distinct_map [of key_number "map fst T"] by blast
  then show d: "distinct (map fst (yearly fd))"
    using mset_eq_imp_distinct_iff [OF mset_fst] by blast
  have "set (map fst (yearly fd)) = set (map key_number (map fst T))"
    by (rule mset_eq_setD [OF mset_fst])
  also have "\<dots> = key_number ` set (map fst T)"
    by (simp only: set_map)
  also have "\<dots> = {n. \<exists>d \<in> set fd. year d = Some n}"
    unfolding set_T using yrs by (force simp: image_iff)
  finally show "set (map fst (yearly fd)) = {n. \<exists>d \<in> set fd. year d = Some n}" .
  have notNaN: "fst p \<noteq> NaN" if "p \<in> set G" for p
  proof -
    from that obtain e where e: "e \<in> set T" "p = g e"
      using mset_G by (metis image_iff set_image_mset set_mset_mset)
    then have "fst e \<in> set (map fst T)" by simp
    from key_ok [OF this] e show ?thesis by (auto simp: fst_g)
  qed
  define S where "S = {p :: jsnum \<times> nat. fst p \<noteq> NaN}"
  have gt: "num_lt (Fin 0) (cmp a b) = num_lt (fst b) (fst a)" if "a \<in> S" "b \<in> S" for a b
    using that by (simp add: S_def cmp_def gt0_num_sub)
  have sorted: "sorted_wrt (\<lambda>a b. \<not> num_lt (Fin 0) (cmp a b)) (sort_by cmp G)"
  proof (rule sorted_sort_by [where S = S])
    show "\<not> num_lt (Fin 0) (cmp b a)" if "a \<in> S" "b \<in> S" "num_lt (Fin 0) (cmp a b)" for a b
      using that gt num_lt_asym by auto
    show "\<not> num_lt (Fin 0) (cmp a c)"
      if "a \<in> S" "b \<in> S" "c \<in> S" "\<not> num_lt (Fin 0) (cmp a b)" "\<not> num_lt (Fin 0) (cmp b c)"
      for a b c
      using that gt num_le_trans [of "fst a" "fst b" "fst c"] by (auto simp: S_def)
    show "set G \<subseteq> S" using notNaN by (auto simp: S_def)
  qed
  show "sorted_wrt (\<lambda>a b. num_lt (fst a) (fst b)) (yearly fd)"
  proof (rule sorted_wrt_distinct_strict [where f = fst and R = "\<lambda>a b. \<not> num_lt (Fin 0) (cmp a b)"])
    show "sorted_wrt (\<lambda>a b. \<not> num_lt (Fin 0) (cmp a b)) (yearly fd)"
      using sorted by (simp add: yearly)
    show "distinct (map fst (yearly fd))" by (rule d)
    show "num_lt (fst a) (fst b)"
      if ab: "a \<in> set (yearly fd)" "b \<in> set (yearly fd)" "\<not> num_lt (Fin 0) (cmp a b)"
        "fst a \<noteq> fst b" for a b
    proof -
      have "a \<in> S" "b \<in> S"
        using ab notNaN by (auto simp: yearly set_sort_by S_def)
      then have "\<not> num_lt (fst b) (fst a)" "fst a \<noteq> NaN" "fst b \<noteq> NaN"
        using ab gt by (auto simp: S_def)
      then show ?thesis
        using ab(4) num_lt_linear [of "fst a" "fst b"] by auto
    qed
  qed
  show "\<forall>n c. (n, c) \<in> set (yearly fd) \<longrightarrow> c = length (filter (\<lambda>d. year d = Some n) fd)"
  proof (intro allI impI)
    fix n c
    assume "(n, c) \<in> set (yearly fd)"
    then obtain k where k: "(k, c) \<in> set T" "key_number k = n"
      unfolding set_y by (auto simp: g_def)
    then have "k \<in> set (map fst T)" by force
    from key_ok [OF this] k have kn: "k = Some n" by auto
    have "map_of T (Some n) = Some c"
      using k(1) kn dist_T by simp
    then show "c = length (filter (\<lambda>d. year d = Some n) fd)"
      unfolding T_def by (simp add: map_of_count_table split: if_splits)
  qed
  have "mset (map snd (yearly fd)) = mset (map snd T)"
    by (simp add: mset_y snd_g multiset.map_comp comp_def)
  then have "sum_list (map snd (yearly fd)) = sum_list (map snd T)"
    by (rule sum_list_mset_cong)
  then show "sum_list (map snd (yearly fd)) = length fd"
    by (simp add: T_def sum_count_table)
qed

lemma filtered_year:
  "d \<in> set (filteredData (data rw) f) \<Longrightarrow> \<exists>n. year d = Some n \<and> n \<noteq> NaN"
  using data_year [of d rw] by (auto simp: filteredData_def truthy_num_def)

text \<open>
  C5. For every filtered record list, the entries of \<open>yearly\<close> are strictly ascending
  by year, so no year occurs twice; the years listed are exactly the years of the
  filtered records; the count of a year is the number of filtered records with that
  year; and the counts add up to the size of the filtered list.
\<close>

theorem yearly_ascending_counts:
  assumes "fd = filteredData (data rw) f"
  shows "sorted_wrt (\<lambda>a b. num_lt (fst a) (fst b)) (yearly fd)
         \<and> distinct (map fst (yearly fd))
         \<and> set (map fst (yearly fd)) = {n. \<exists>d \<in> set fd. year d = Some n}
         \<and> (\<forall>n c. (n, c) \<in> set (yearly fd) \<longrightarrow> c = length (filter (\<lambda>d. year d = Some n) fd))
         \<and> sum_list (map snd (yearly fd)) = length fd"
proof -
  have "\<forall>d \<in> set fd. \<exists>n. year d = Some n \<and> n \<noteq> NaN"
    using assms filtered_year by blast
  from yearly_props [OF this] show ?thesis by blast
qed

lemmas object_defs = Object_entries_def List.map_filter_simps year_index.simps is_integer_def

theorem yearly_ascending_counts_witness:
  "map clean_row [row_wa, row_2019, row_ca] =
     filteredData (data (Some [row_wa, row_2019, row_bad, row_ca])) \<lparr>sel_year = ''All'', sel_state = ''All''\<rparr>
   \<and> yearly (map clean_row [row_wa, row_2019, row_ca]) = [(Fin 2019, 1), (Fin 2020, 2)]
   \<and> sum_list (map snd (yearly (map clean_row [row_wa, row_2019, row_ca]))) = 3"
proof -
  have h: "map clean_row [row_wa, row_2019, row_ca] =
     filteredData (data (Some [row_wa, row_2019, row_bad, row_ca])) \<lparr>sel_year = ''All'', sel_state = ''All''\<rparr>"
    by (simp add: filteredData_def keep_def data_Some row_defs field_def truthy_num_def parse_defs)
  have y: "map year (map clean_row [row_wa, row_2019, row_ca]) = [Some (Fin 2020), Some (Fin 2019), Some (Fin 2020)]"
    by (simp add: clean_row_def row_defs field_def or_null_def truthy_num_def)
  have "foldl (\<lambda>m d. bump (year d) m) [] (map clean_row [row_wa, row_2019, row_ca])
          = foldl (\<lambda>m k. bump k m) [] (map year (map clean_row [row_wa, row_2019, row_ca]))"
    by (simp add: foldl_map)
  then have e: "yearly (map clean_row [row_wa, row_2019, row_ca]) = [(Fin 2019, 1), (Fin 2020, 2)]"
    unfolding yearly_def y by (simp add: object_defs sort_by_def)
  show ?thesis
    using h e yearly_ascending_counts [OF h] by simp
qed

subsection \<open>Top states\<close>

lemma bump_name_Count:
  "k \<notin> set prototype_names \<Longrightarrow>
   bump_name k (map (\<lambda>(k, c). (k, Count c)) m) = map (\<lambda>(k, c). (k, Count c)) (bump k m)"
  by (induction m) (auto simp: prototype_names_def)

lemma name_table_Count:
  "\<forall>d \<in> set fd. g d \<notin> set prototype_names \<Longrightarrow>
   foldl (\<lambda>m d. bump_name (g d) m) (map (\<lambda>(k, c). (k, Count c)) m0) fd =
     map (\<lambda>(k, c). (k, Count c)) (foldl (\<lambda>m d. bump (g d) m) m0 fd)"
proof (induction fd arbitrary: m0)
  case Nil
  then show ?case by simp
next
  case (Cons d fd)
  then show ?case by (simp add: bump_name_Count)
qed

lemma insort_key_map:
  "insort_key f (g x) (map g xs) = map g (insort_key (\<lambda>x. f (g x)) x xs)"
  by (induction xs) auto

lemma sort_key_map: "sort_key f (map g xs) = map g (sort_key (\<lambda>x. f (g x)) xs)"
  by (induction xs) (auto simp: insort_key_map)

lemma index_entries_map:
  "List.map_filter (\<lambda>e. map_option (\<lambda>i. (i, e)) (idx (fst e))) m =
     map (\<lambda>e. (case idx (fst e) of Some i \<Rightarrow> i | None \<Rightarrow> 0, e)) (filter (\<lambda>e. idx (fst e) \<noteq> None) m)"
  by (induction m) (auto simp: List.map_filter_simps split: option.splits)

lemma Object_entries_order:
  "map fst (Object_entries idx m) = entries_order idx (map fst m)"
proof -
  let ?h = "\<lambda>k. case idx k of Some i \<Rightarrow> i | None \<Rightarrow> 0"
  have "map fst (map snd (sort_key fst
          (map (\<lambda>e. (?h (fst e), e)) (filter (\<lambda>e. idx (fst e) \<noteq> None) m))))
        = map fst (sort_key (\<lambda>e. ?h (fst e)) (filter (\<lambda>e. idx (fst e) \<noteq> None) m))"
    by (simp add: sort_key_map comp_def)
  also have "\<dots> = sort_key ?h (map fst (filter (\<lambda>e. idx (fst e) \<noteq> None) m))"
    by (simp add: sort_key_map)
  also have "map fst (filter (\<lambda>e. idx (fst e) \<noteq> None) m) = filter (\<lambda>k. idx k \<noteq> None) (map fst m)"
    by (simp add: filter_map comp_def)
  finally have 1: "map fst (map snd (sort_key fst
          (map (\<lambda>e. (?h (fst e), e)) (filter (\<lambda>e. idx (fst e) \<noteq> None) m))))
        = sort_key ?h (filter (\<lambda>k. idx k \<noteq> None) (map fst m))" .
  have 2: "map fst (filter (\<lambda>e. idx (fst e) = None) m) = filter (\<lambda>k. idx k = None) (map fst m)"
    by (simp add: filter_map comp_def)
  show ?thesis
    unfolding Object_entries_def entries_order_def index_entries_map map_append 1 2 ..
qed

lemma entries_order_no_index:
  "\<forall>k \<in> set ks. idx k = None \<Longrightarrow> entries_order idx ks = ks"
  by (simp add: entries_order_def filter_empty_conv)

lemma filter_take_prefix: "prefix (filter P (take n xs)) (filter P xs)"
  by (metis append_take_drop_id filter_append prefixI)

lemma topStates_props:
  assumes no_proto: "\<forall>d \<in> set fd. ToString (state d) \<notin> set prototype_names"
  defines "occ \<equiv> \<lambda>k. length (filter (\<lambda>d. ToString (state d) = k) fd)"
    and "order \<equiv> entries_order index_of (Set_from (map (\<lambda>d. ToString (state d)) fd))"
  shows "topStates fd =
           take 10 (sort_by (\<lambda>a b. num_sub (count_num (snd b)) (count_num (snd a)))
                      (map (\<lambda>k. (k, Count (occ k))) order))"
    and "sorted_wrt (\<lambda>a b. occ (fst b) \<le> occ (fst a)) (topStates fd)"
    and "\<forall>e \<in> set (topStates fd). snd e = Count (occ (fst e)) \<and> 0 < occ (fst e)"
    and "prefix (map fst (filter (\<lambda>e. snd e = c) (topStates fd)))
                (filter (\<lambda>k. Count (occ k) = c) order)"
proof -
  define C where "C = (\<lambda>(k :: string, c :: nat). (k, Count c))"
  define T where "T = foldl (\<lambda>m d. bump (ToString (state d)) m) [] fd"
  define cmp where "cmp = (\<lambda>(a :: string \<times> count) (b :: string \<times> count).
                             num_sub (count_num (snd b)) (count_num (snd a)))"
  define E where "E = Object_entries index_of (map C T)"
  have table: "foldl (\<lambda>m d. bump_name (ToString (state d)) m) [] fd = map C T"
    using name_table_Count [of fd "\<lambda>d. ToString (state d)" "[]"] no_proto
    by (simp add: C_def T_def)
  have top: "topStates fd = take 10 (sort_by cmp E)"
    unfolding topStates_def table E_def cmp_def ..
  have keys_T: "map fst T = Set_from (map (\<lambda>d. ToString (state d)) fd)"
    unfolding T_def Set_from_def by (simp add: keys_count_table)
  have dist_T: "distinct (map fst T)"
    by (simp add: keys_T distinct_Set_from)
  have cnt_T: "c = occ k \<and> 0 < occ k" if "(k, c) \<in> set T" for k c
  proof -
    have "map_of T k = Some c" using that dist_T by simp
    then have "k \<in> (\<lambda>d. ToString (state d)) ` set fd \<and> c = occ k"
      unfolding T_def occ_def by (simp add: map_of_count_table split: if_splits)
    then show ?thesis
      by (auto simp: occ_def filter_empty_conv)
  qed
  have fst_C: "map fst (map C T) = map fst T"
    by (simp add: C_def comp_def split: prod.splits)
  have keys_E: "map fst E = order"
    unfolding E_def Object_entries_order fst_C keys_T order_def ..
  have set_E: "set E = C ` set T"
    using mset_Object_entries [of index_of "map C T"] unfolding E_def
    by (metis mset_eq_setD set_map)
  have E_cnt: "snd e = Count (occ (fst e)) \<and> 0 < occ (fst e)" if "e \<in> set E" for e
  proof -
    from that obtain k c where kc: "(k, c) \<in> set T" "e = (k, Count c)"
      unfolding set_E by (auto simp: C_def)
    from cnt_T [OF kc(1)] kc(2) show ?thesis by simp
  qed
  have "map (\<lambda>e. (fst e, Count (occ (fst e)))) E = E"
    by (rule map_idI) (use E_cnt in \<open>auto simp: prod_eq_iff\<close>)
  then have E_eq: "E = map (\<lambda>k. (k, Count (occ k))) order"
    unfolding keys_E [symmetric] by (simp add: comp_def)
  show "topStates fd = take 10 (sort_by (\<lambda>a b. num_sub (count_num (snd b)) (count_num (snd a)))
                      (map (\<lambda>k. (k, Count (occ k))) order))"
    using top unfolding E_eq cmp_def .
  have set_top: "set (topStates fd) \<subseteq> set E"
    unfolding top using set_take_subset [of 10 "sort_by cmp E"] by (simp add: set_sort_by)
  show cnt: "\<forall>e \<in> set (topStates fd). snd e = Count (occ (fst e)) \<and> 0 < occ (fst e)"
    using set_top E_cnt by blast
  define S where "S = {e :: string \<times> count. snd e = Count (occ (fst e))}"
  have gt: "num_lt (Fin 0) (cmp a b) = (occ (fst a) < occ (fst b))" if "a \<in> S" "b \<in> S" for a b
    using that by (simp add: S_def cmp_def)
  have "sorted_wrt (\<lambda>a b. \<not> num_lt (Fin 0) (cmp a b)) (sort_by cmp E)"
  proof (rule sorted_sort_by [where S = S])
    show "\<not> num_lt (Fin 0) (cmp b a)" if "a \<in> S" "b \<in> S" "num_lt (Fin 0) (cmp a b)" for a b
      using that gt by auto
    show "\<not> num_lt (Fin 0) (cmp a c)"
      if "a \<in> S" "b \<in> S" "c \<in> S" "\<not> num_lt (Fin 0) (cmp a b)" "\<not> num_lt (Fin 0) (cmp b c)"
      for a b c
      using that gt by auto
    show "set E \<subseteq> S" using E_cnt by (auto simp: S_def)
  qed
  then have "sorted_wrt (\<lambda>a b. \<not> num_lt (Fin 0) (cmp a b)) (topStates fd)"
    unfolding top by (rule sorted_wrt_take)
  then show "sorted_wrt (\<lambda>a b. occ (fst b) \<le> occ (fst a)) (topStates fd)"
  proof (rule sorted_wrt_mono_rel [rotated])
    show "occ (fst b) \<le> occ (fst a)"
      if "a \<in> set (topStates fd)" "b \<in> set (topStates fd)" "\<not> num_lt (Fin 0) (cmp a b)" for a b
    proof -
      have "a \<in> S" "b \<in> S" using that cnt by (auto simp: S_def)
      then show ?thesis using gt that(3) by auto
    qed
  qed
  have stable: "filter (\<lambda>e. snd e = c) (sort_by cmp E) = filter (\<lambda>e. snd e = c) E"
  proof (rule filter_sort_by)
    show "\<not> num_lt (Fin 0) (cmp x y)" if "snd x = c" "snd y = c" for x y
      using that by (cases c) (simp_all add: cmp_def)
  qed
  have "prefix (filter (\<lambda>e. snd e = c) (topStates fd)) (filter (\<lambda>e. snd e = c) E)"
    unfolding top using filter_take_prefix [of "\<lambda>e. snd e = c" 10 "sort_by cmp E"]
    by (simp only: stable)
  then have "prefix (map fst (filter (\<lambda>e. snd e = c) (topStates fd)))
                    (map fst (filter (\<lambda>e. snd e = c) E))"
    by (rule map_mono_prefix)
  moreover have "map fst (filter (\<lambda>e. snd e = c) E) = filter (\<lambda>k. Count (occ k) = c) order"
    unfolding E_eq by (simp add: filter_map comp_def)
  ultimately show "prefix (map fst (filter (\<lambda>e. snd e = c) (topStates fd)))
                (filter (\<lambda>k. Count (occ k) = c) order)"
    by simp
qed

lemmas tostring_defs = positive_to_string_def is_integer_def digit_char_def
  digits.simps [of "numeral n" for n]

lemmas names_defs = prototype_names_def index_of_def is_digit_def digit_of_def digits_val_def

text \<open>
  C6, as the specification states it, fails in its tie-break: a state whose string is an
  array index is listed by \<open>Object.entries\<close> before the other states, whenever it was
  first encountered. Here \<open>WA\<close> comes first in the records, \<open>98101\<close> second, both
  once, and \<open>98101\<close> is listed first.
\<close>

theorem topStates_tie_order_counterexample:
  "filteredData (data (Some [row_wa, row_zip])) \<lparr>sel_year = ''All'', sel_state = ''All''\<rparr> =
     map clean_row [row_wa, row_zip]
   \<and> map (\<lambda>d. ToString (state d)) (map clean_row [row_wa, row_zip]) = [''WA'', ''98101'']
   \<and> topStates (map clean_row [row_wa, row_zip]) = [(''98101'', Count 1), (''WA'', Count 1)]"
proof -
  have 1: "filteredData (data (Some [row_wa, row_zip])) \<lparr>sel_year = ''All'', sel_state = ''All''\<rparr> =
     map clean_row [row_wa, row_zip]"
    by (simp add: filteredData_def keep_def data_Some row_defs field_def truthy_num_def)
  have 2: "map (\<lambda>d. ToString (state d)) (map clean_row [row_wa, row_zip]) = [''WA'', ''98101'']"
    by (simp add: clean_row_def row_defs field_def js_or_def truthy_num_def tostring_defs)
  have "foldl (\<lambda>m d. bump_name (ToString (state d)) m) [] (map clean_row [row_wa, row_zip])
          = foldl (\<lambda>m k. bump_name k m) [] (map (\<lambda>d. ToString (state d)) (map clean_row [row_wa, row_zip]))"
    by (simp add: foldl_map)
  then have 3: "topStates (map clean_row [row_wa, row_zip]) = [(''98101'', Count 1), (''WA'', Count 1)]"
    unfolding topStates_def 2
    by (simp add: names_defs Object_entries_def List.map_filter_simps sort_by_def)
  show ?thesis using 1 2 3 by simp
qed

text \<open>
  C6, amended. For every record list in which no state string names a property of
  \<open>Object.prototype\<close>: \<open>topStates\<close> has at most 10 entries; each entry carries the
  number of records with its state, and the entries are sorted by that number,
  descending; the entries with one and the same count appear in the order in which
  \<open>Object.entries\<close> lists their states (an initial segment of them, if the cut at 10
  falls among them): the states that are array indices first, ascending, then the other
  states in order of first encounter. When no state string is an array index, that order
  is the order of first encounter.
\<close>

theorem topStates_sorted_ties_in_entries_order:
  assumes "\<forall>d \<in> set fd. ToString (state d) \<notin> set prototype_names"
  shows "length (topStates fd) \<le> 10
         \<and> sorted_wrt (\<lambda>a b. state_count fd (fst b) \<le> state_count fd (fst a)) (topStates fd)
         \<and> (\<forall>e \<in> set (topStates fd). snd e = Count (state_count fd (fst e)))
         \<and> (\<forall>c. prefix (map fst (filter (\<lambda>e. snd e = c) (topStates fd)))
                       (filter (\<lambda>k. Count (state_count fd k) = c)
                          (entries_order index_of (first_seen fd))))
         \<and> ((\<forall>d \<in> set fd. index_of (ToString (state d)) = None) \<longrightarrow>
              entries_order index_of (first_seen fd) = first_seen fd)"
proof -
  have "length (topStates fd) \<le> 10"
    by (simp add: topStates_def)
  moreover have "entries_order index_of (first_seen fd) = first_seen fd"
    if "\<forall>d \<in> set fd. index_of (ToString (state d)) = None"
    by (rule entries_order_no_index) (use that in \<open>auto simp: first_seen_def set_Set_from\<close>)
  moreover note topStates_props(2-4) [OF assms, folded state_count_def first_seen_def]
  ultimately show ?thesis by blast
qed

theorem topStates_sorted_ties_in_entries_order_witness:
  "map (\<lambda>d. ToString (state d)) (map clean_row [row_wa, row_ca, row_wa]) = [''WA'', ''CA'', ''WA'']
   \<and> topStates (map clean_row [row_wa, row_ca, row_wa]) = [(''WA'', Count 2), (''CA'', Count 1)]
   \<and> length (topStates (map clean_row [row_wa, row_ca, row_wa])) \<le> 10
   \<and> entries_order index_of (first_seen (map clean_row [row_wa, row_ca, row_wa])) = [''WA'', ''CA'']"
proof -
  have 2: "map (\<lambda>d. ToString (state d)) (map clean_row [row_wa, row_ca, row_wa]) = [''WA'', ''CA'', ''WA'']"
    by (simp add: clean_row_def row_defs field_def js_or_def)
  then have h: "\<forall>d \<in> set (map clean_row [row_wa, row_ca, row_wa]). ToString (state d) \<notin> set prototype_names"
    by (simp add: prototype_names_def)
  have "foldl (\<lambda>m d. bump_name (ToString (state d)) m) [] (map clean_row [row_wa, row_ca, row_wa])
          = foldl (\<lambda>m k. bump_name k m) [] (map (\<lambda>d. ToString (state d)) (map clean_row [row_wa, row_ca, row_wa]))"
    by (simp add: foldl_map)
  then have 3: "topStates (map clean_row [row_wa, row_ca, row_wa]) = [(''WA'', Count 2), (''CA'', Count 1)]"
    unfolding topStates_def 2
    by (simp add: names_defs Object_entries_def List.map_filter_simps sort_by_def)
  have 4: "first_seen (map clean_row [row_wa, row_ca, row_wa]) = [''WA'', ''CA'']"
    unfolding first_seen_def 2 by (simp add: Set_from_def)
  have 5: "\<forall>d \<in> set (map clean_row [row_wa, row_ca, row_wa]). index_of (ToString (state d)) = None"
    using 2 by (simp add: names_defs)
  show ?thesis
    using 2 3 4 5 topStates_sorted_ties_in_entries_order [OF h] by simp
qed

end
